theory Spec2Isabelle
  imports Main "HOL-Library.Sublist"
begin

section \<open>JavaScript strings and character classes\<close>

text \<open>
  A JavaScript string is a sequence of UTF-16 code units. The converter never computes with
  a code unit: it only compares code units with constants (through its regular expressions),
  so a code unit is modelled by its number. \<open>js\<close> turns an ASCII literal of the source
  into such a sequence.
\<close>

type_synonym code_unit = nat
type_synonym jsstring = "code_unit list"

definition js :: "string \<Rightarrow> jsstring" where
  "js s = map of_char s"

abbreviation NL :: code_unit where
  "NL \<equiv> 10"

text \<open>The class \<^verbatim>\<open>\d\<close>: the digits 0 to 9.\<close>

definition is_digit :: "code_unit \<Rightarrow> bool" where
  "is_digit c \<longleftrightarrow> 48 \<le> c \<and> c \<le> 57"

text \<open>The class \<^verbatim>\<open>\w\<close>: letters A-Z and a-z, digits and the underscore.\<close>

definition is_word :: "code_unit \<Rightarrow> bool" where
  "is_word c \<longleftrightarrow> (65 \<le> c \<and> c \<le> 90) \<or> (97 \<le> c \<and> c \<le> 122) \<or> is_digit c \<or> c = 95"

text \<open>
  The class \<^verbatim>\<open>\s\<close>: the ECMAScript white space and line terminator code units
  (TAB, LF, VT, FF, CR, SP, NBSP, U+1680, U+2000 to U+200A, U+2028, U+2029, U+202F, U+205F,
  U+3000, U+FEFF).
\<close>

definition is_space :: "code_unit \<Rightarrow> bool" where
  "is_space c \<longleftrightarrow> (9 \<le> c \<and> c \<le> 13) \<or> c = 32 \<or> c = 160 \<or> c = 5760
     \<or> (8192 \<le> c \<and> c \<le> 8202) \<or> c = 8232 \<or> c = 8233 \<or> c = 8239 \<or> c = 8287
     \<or> c = 12288 \<or> c = 65279"

section \<open>The regular expressions of the rule table\<close>

text \<open>
  A regular expression is modelled by what an attempt to match it at one position of the
  text returns. The attempt sees the rest of the text from that position, and whether the
  code unit before the position is a word character (all that the assertion \<^verbatim>\<open>\b\<close>
  reads of the text before). It returns the length of the match and the text of capture
  group 1 (empty for a pattern without group), or \<open>None\<close>.
\<close>

type_synonym regex = "bool \<Rightarrow> jsstring \<Rightarrow> (nat \<times> jsstring) option"

text \<open>
  \<^verbatim>\<open>\b\<close> holds at a position when exactly one of the code units before and after it
  is a word character; the start and the end of the text count as non-word.
\<close>

definition boundary :: "bool \<Rightarrow> jsstring \<Rightarrow> bool" where
  "boundary pw s \<longleftrightarrow> pw \<noteq> (case s of [] \<Rightarrow> False | c # _ \<Rightarrow> is_word c)"

text \<open>
  \<^verbatim>\<open>/\[dbo\]\.\[(\w+)\]/g\<close>. The greedy \<^verbatim>\<open>\w+\<close> takes the longest run of word
  characters; giving characters back cannot help, since the code unit after a shorter run
  is a word character and not the closing bracket.
\<close>

definition rx_dbo :: regex where
  "rx_dbo pw s =
     (if prefix (js ''[dbo].['') s then
        let r = drop 7 s; w = takeWhile is_word r in
        if w \<noteq> [] \<and> take 1 (dropWhile is_word r) = js '']''
        then Some (7 + length w + 1, w) else None
      else None)"

text \<open>
  \<^verbatim>\<open>/\[([^\]]+)\]/g\<close>. The class \<^verbatim>\<open>[^\]]\<close> accepts every code unit but the closing
  bracket, line terminators and opening brackets included; the greedy run stops at the first
  closing bracket or at the end of the text, and the match needs the closing bracket there.
\<close>

definition rx_bracket :: regex where
  "rx_bracket pw s =
     (case s of
        [] \<Rightarrow> None
      | c # r \<Rightarrow>
          if c = 91 then
            let w = takeWhile (\<lambda>x. x \<noteq> 93) r in
            if w \<noteq> [] \<and> take 1 (dropWhile (\<lambda>x. x \<noteq> 93) r) = js '']''
            then Some (length w + 2, w) else None
          else None)"

text \<open>A pattern that is a literal text, such as \<^verbatim>\<open>/GETDATE\(\)/g\<close>.\<close>

definition rx_lit :: "jsstring \<Rightarrow> regex" where
  "rx_lit p pw s = (if prefix p s then Some (length p, []) else None)"

text \<open>A literal text after a word boundary, such as \<^verbatim>\<open>/\bLEN\(/g\<close>.\<close>

definition rx_blit :: "jsstring \<Rightarrow> regex" where
  "rx_blit p pw s = (if boundary pw s \<and> prefix p s then Some (length p, []) else None)"

text \<open>
  \<^verbatim>\<open>/\bTOP\s+(\d+)\b/gi\<close>. With the flag \<^verbatim>\<open>i\<close> (and without \<^verbatim>\<open>u\<close>) a letter of the
  pattern accepts its two ASCII cases only; the classes and \<^verbatim>\<open>\b\<close> are unchanged. The
  greedy runs take all the white space, then all the digits: after a shorter run of white
  space comes white space, not a digit, and after a shorter run of digits comes a digit,
  where \<^verbatim>\<open>\b\<close> fails.
\<close>

definition ci :: "code_unit \<Rightarrow> code_unit \<Rightarrow> bool" where
  "ci upper c \<longleftrightarrow> c = upper \<or> c = upper + 32"

definition rx_top :: regex where
  "rx_top pw s =
     (case s of
        c1 # c2 # c3 # r \<Rightarrow>
          if boundary pw s \<and> ci 84 c1 \<and> ci 79 c2 \<and> ci 80 c3 then
            let ws = takeWhile is_space r; r1 = dropWhile is_space r;
                ds = takeWhile is_digit r1; r2 = dropWhile is_digit r1 in
            if ws \<noteq> [] \<and> ds \<noteq> [] \<and> boundary True r2
            then Some (3 + length ws + length ds, ds) else None
          else None
      | _ \<Rightarrow> None)"

section \<open>The rule table\<close>

text \<open>
  A replacement text is a template: literal text and references \<^verbatim>\<open>$1\<close> to capture
  group 1.
\<close>

datatype piece = Lit jsstring | Group1

fun expand :: "piece list \<Rightarrow> jsstring \<Rightarrow> jsstring" where
  "expand [] cap = []"
| "expand (Lit l # ps) cap = l @ expand ps cap"
| "expand (Group1 # ps) cap = cap @ expand ps cap"

text \<open>
  A rule, with the text \<^verbatim>\<open>pattern.toString()\<close> returns for its pattern. A string
  literal of the logic cannot hold a backslash: \<open>rx_source\<close> reads \<open>%\<close> as the backslash.
\<close>

record rule =
  pattern :: regex
  source :: jsstring
  replacement :: "piece list"

definition rx_source :: "string \<Rightarrow> jsstring" where
  "rx_source s = map (\<lambda>c. if c = CHR ''%'' then 92 else of_char c) s"

definition conversions :: "rule list" where
  "conversions =
     [\<lparr>pattern = rx_dbo, source = rx_source ''/%[dbo%]%.%[(%w+)%]/g'',
         replacement = [Group1]\<rparr>,
      \<lparr>pattern = rx_bracket, source = rx_source ''/%[([^%]]+)%]/g'',
         replacement = [Group1]\<rparr>,
      \<lparr>pattern = rx_lit (js ''GETDATE()''), source = rx_source ''/GETDATE%(%)/g'',
         replacement = [Lit (js ''NOW()'')]\<rparr>,
      \<lparr>pattern = rx_lit (js ''GETUTCDATE()''), source = rx_source ''/GETUTCDATE%(%)/g'',
         replacement = [Lit (js ''UTC_TIMESTAMP()'')]\<rparr>,
      \<lparr>pattern = rx_lit (js ''NEWID()''), source = rx_source ''/NEWID%(%)/g'',
         replacement = [Lit (js ''UUID()'')]\<rparr>,
      \<lparr>pattern = rx_blit (js ''LEN(''), source = rx_source ''/%bLEN%(/g'',
         replacement = [Lit (js ''LENGTH('')]\<rparr>,
      \<lparr>pattern = rx_blit (js ''ISNULL(''), source = rx_source ''/%bISNULL%(/g'',
         replacement = [Lit (js ''IFNULL('')]\<rparr>,
      \<lparr>pattern = rx_top, source = rx_source ''/%bTOP%s+(%d+)%b/gi'',
         replacement = [Lit (js ''LIMIT ''), Group1]\<rparr>]"

section \<open>Global replacement and matching\<close>

text \<open>
  \<^verbatim>\<open>text.replace(pattern, replacement)\<close> with a global pattern: the text is scanned from
  the left; where the pattern matches, the expanded replacement is written and the scan goes
  on after the match, elsewhere the code unit is copied. All matches are found in the text
  as it was before the call, so after a match the code unit before the position is the last
  one of the match. None of the eight patterns matches the empty text (lemma
  \<open>conversions_progress\<close>), so the scan goes on \<open>n - 1\<close> code units after the first one
  of a match of length \<open>n\<close>.
\<close>

fun js_replace :: "regex \<Rightarrow> piece list \<Rightarrow> bool \<Rightarrow> jsstring \<Rightarrow> jsstring" where
  "js_replace rx tpl pw [] = []"
| "js_replace rx tpl pw (c # cs) =
     (case rx pw (c # cs) of
        None \<Rightarrow> c # js_replace rx tpl (is_word c) cs
      | Some (n, cap) \<Rightarrow>
          expand tpl cap @ js_replace rx tpl (is_word (last (c # take (n - 1) cs))) (drop (n - 1) cs))"

text \<open>
  \<^verbatim>\<open>text.match(pattern)\<close> with a global pattern: the matched texts of the same scan, or
  \<^verbatim>\<open>null\<close> when there is none.
\<close>

fun all_matches :: "regex \<Rightarrow> bool \<Rightarrow> jsstring \<Rightarrow> jsstring list" where
  "all_matches rx pw [] = []"
| "all_matches rx pw (c # cs) =
     (case rx pw (c # cs) of
        None \<Rightarrow> all_matches rx (is_word c) cs
      | Some (n, cap) \<Rightarrow>
          (c # take (n - 1) cs) # all_matches rx (is_word (last (c # take (n - 1) cs))) (drop (n - 1) cs))"

definition js_match :: "regex \<Rightarrow> jsstring \<Rightarrow> jsstring list option" where
  "js_match rx s = (let ms = all_matches rx False s in if ms = [] then None else Some ms)"

section \<open>SQLConverter\<close>

text \<open>The loop of \<^verbatim>\<open>convertToMySQL\<close>: every rule in turn, on the text the rules before left.\<close>

definition apply_rule :: "jsstring \<Rightarrow> rule \<Rightarrow> jsstring" where
  "apply_rule text conv = js_replace (pattern conv) (replacement conv) False text"

definition apply_conversions :: "jsstring \<Rightarrow> jsstring" where
  "apply_conversions sqlContent = foldl apply_rule sqlContent conversions"

text \<open>
  The header; \<open>now\<close> is the text \<^verbatim>\<open>new Date().toISOString()\<close> returns at the call.
\<close>

definition header :: "jsstring \<Rightarrow> jsstring" where
  "header now = js ''-- Converted from SQL Server to MySQL'' @ [NL]
     @ js ''-- Generated on: '' @ now @ [NL]
     @ js ''-- Use with caution and verify before executing'' @ [NL, NL]"

definition convertToMySQL :: "jsstring \<Rightarrow> jsstring \<Rightarrow> jsstring" where
  "convertToMySQL now sqlContent = header now @ apply_conversions sqlContent"

text \<open>
  \<^verbatim>\<open>text.split('\n')\<close>: the pieces between the line feeds, one more than there are
  line feeds.
\<close>

fun split_nl :: "jsstring \<Rightarrow> jsstring list" where
  "split_nl [] = [[]]"
| "split_nl (c # cs) =
     (if c = NL then [] # split_nl cs
      else case split_nl cs of [] \<Rightarrow> [[c]] | l # ls \<Rightarrow> (c # l) # ls)"

subsection \<open>getConversionStats\<close>

record stats_entry =
  entry_pattern :: jsstring
  count :: nat

record conversion_stats =
  originalLines :: nat
  convertedLines :: nat
  conversionsApplied :: "stats_entry list"

definition stats_step :: "jsstring \<Rightarrow> stats_entry list \<Rightarrow> rule \<Rightarrow> stats_entry list" where
  "stats_step originalContent applied conv =
     (case js_match (pattern conv) originalContent of
        None \<Rightarrow> applied
      | Some matches \<Rightarrow> applied @ [\<lparr>entry_pattern = source conv, count = length matches\<rparr>])"

definition getConversionStats :: "jsstring \<Rightarrow> jsstring \<Rightarrow> conversion_stats" where
  "getConversionStats originalContent convertedContent =
     \<lparr>originalLines = length (split_nl originalContent),
      convertedLines = length (split_nl convertedContent),
      conversionsApplied = foldl (stats_step originalContent) [] conversions\<rparr>"

subsection \<open>The file system\<close>

text \<open>
  What the converter reads of the file system: whether a path exists, the size
  \<^verbatim>\<open>statSync\<close> reports, whether the file can be read and written, and its text. A file that
  cannot be read (no permission, or a directory of that name) still has a size. For a path
  that cannot be written, \<open>delivered\<close> is the number of lines the reader of a stream has
  delivered when the error event of the write stream arrives.
\<close>

type_synonym path = string

record file_node =
  content :: jsstring
  readable :: bool
  bytes :: nat

record fsys =
  files :: "path \<rightharpoonup> file_node"
  writable :: "path \<Rightarrow> bool"
  delivered :: "path \<Rightarrow> nat"

datatype error =
    ENOENT path
  | EACCES path
  | ErrorReadingFile path error
  | ErrorReadingStream error
  | ErrorWritingStream error

text \<open>The message texts are templates; the model keeps the values that fill them.\<close>

datatype message =
    Converted path path
  | ConvertedLines path path nat nat
  | Failed error

record result =
  success :: bool
  message :: message

text \<open>The number of bytes of the UTF-8 encoding that \<^verbatim>\<open>writeFileSync\<close> writes.\<close>

fun utf8_length :: "jsstring \<Rightarrow> nat" where
  "utf8_length [] = 0"
| "utf8_length [c] = (if c < 128 then 1 else if c < 2048 then 2 else 3)"
| "utf8_length (c # d # cs) =
     (if c < 128 then 1 + utf8_length (d # cs)
      else if c < 2048 then 2 + utf8_length (d # cs)
      else if 55296 \<le> c \<and> c < 56320 \<and> 56320 \<le> d \<and> d < 57344 then 4 + utf8_length cs
      else 3 + utf8_length (d # cs))"

definition statSync :: "fsys \<Rightarrow> path \<Rightarrow> error + nat" where
  "statSync fs p = (case files fs p of None \<Rightarrow> Inl (ENOENT p) | Some f \<Rightarrow> Inr (bytes f))"

definition readFileSync :: "fsys \<Rightarrow> path \<Rightarrow> error + jsstring" where
  "readFileSync fs p =
     (case files fs p of
        None \<Rightarrow> Inl (ENOENT p)
      | Some f \<Rightarrow> if readable f then Inr (content f) else Inl (EACCES p))"

definition store :: "fsys \<Rightarrow> path \<Rightarrow> jsstring \<Rightarrow> fsys" where
  "store fs p text =
     fs\<lparr>files := (files fs)(p \<mapsto>
        (case files fs p of
           None \<Rightarrow> \<lparr>content = text, readable = True, bytes = utf8_length text\<rparr>
         | Some f \<Rightarrow> f\<lparr>content := text, bytes := utf8_length text\<rparr>))\<rparr>"

definition writeFileSync :: "fsys \<Rightarrow> path \<Rightarrow> jsstring \<Rightarrow> error + fsys" where
  "writeFileSync fs p text = (if writable fs p then Inr (store fs p text) else Inl (EACCES p))"

subsection \<open>convertFile\<close>

definition convertFile :: "jsstring \<Rightarrow> fsys \<Rightarrow> path \<Rightarrow> error + jsstring" where
  "convertFile now fs inputFile =
     (case readFileSync fs inputFile of
        Inl e \<Rightarrow> Inl (ErrorReadingFile inputFile e)
      | Inr text \<Rightarrow> Inr (convertToMySQL now text))"

subsection \<open>convertLargeFileStreaming\<close>

text \<open>
  The lines \<^verbatim>\<open>readline\<close> emits for a text, with \<^verbatim>\<open>crlfDelay: Infinity\<close>: a line
  ends at CR LF, at LF and at a CR that no LF follows, and at no other code unit; the
  terminator is not part of the line; what is left at the end of the input is a last line
  when it is not empty.
\<close>

fun rl_lines :: "jsstring \<Rightarrow> jsstring \<Rightarrow> jsstring list" where
  "rl_lines buf [] = (if buf = [] then [] else [buf])"
| "rl_lines buf [c] = (if c = 13 \<or> c = NL then [buf] else [buf @ [c]])"
| "rl_lines buf (c # d # cs) =
     (if c = 13 \<and> d = NL then buf # rl_lines [] cs
      else if c = 13 \<or> c = NL then buf # rl_lines [] (d # cs)
      else rl_lines (buf @ [c]) (d # cs))"

text \<open>
  The handler of the event \<^verbatim>\<open>line\<close>: the counters and the chunks given to
  \<^verbatim>\<open>writeStream.write\<close>, in order. (The progress text on the standard output is not
  modelled.)
\<close>

record stream_state =
  lineCount :: nat
  convertedCount :: nat
  written :: "jsstring list"

definition line_step :: "jsstring \<times> bool \<Rightarrow> rule \<Rightarrow> jsstring \<times> bool" where
  "line_step st conv =
     (let beforeConversion = fst st;
          convertedLine = js_replace (pattern conv) (replacement conv) False beforeConversion
      in (convertedLine, snd st \<or> beforeConversion \<noteq> convertedLine))"

definition on_line :: "stream_state \<Rightarrow> jsstring \<Rightarrow> stream_state" where
  "on_line st line =
     (let (convertedLine, hasConversions) = foldl line_step (line, False) conversions
      in \<lparr>lineCount = lineCount st + 1,
          convertedCount = (if hasConversions then convertedCount st + 1 else convertedCount st),
          written = written st @ [convertedLine @ [NL]]\<rparr>)"

definition stream_start :: "jsstring \<Rightarrow> stream_state" where
  "stream_start now = \<lparr>lineCount = 0, convertedCount = 0, written = [header now]\<rparr>"

definition stream_run :: "jsstring \<Rightarrow> jsstring \<Rightarrow> stream_state" where
  "stream_run now text = foldl on_line (stream_start now) (rl_lines [] text)"

text \<open>
  The promise of \<^verbatim>\<open>convertLargeFileStreaming\<close>. The handler of the \<^verbatim>\<open>error\<close> event of
  the reader destroys the write stream and rejects (\<open>Inl\<close>): the destination, when it can
  be written, is created and left empty, the header not yet flushed. The handler of
  \<^verbatim>\<open>close\<close> resolves (\<open>Inr\<close>) with the two counters. The handler of the \<^verbatim>\<open>error\<close> event of
  the write stream calls \<^verbatim>\<open>rl.close()\<close> before it rejects: this runs the handler of
  \<^verbatim>\<open>close\<close>, which resolves the promise with \<^verbatim>\<open>success: true\<close> and the counters of the
  lines delivered so far, and the rejection that follows has no effect; nothing is written.
  When neither file can be opened the error of the reader is taken to come first.
\<close>

definition convertLargeFileStreaming ::
    "jsstring \<Rightarrow> fsys \<Rightarrow> path \<Rightarrow> path \<Rightarrow> (error + result) \<times> fsys" where
  "convertLargeFileStreaming now fs inputFile outputFile =
     (case readFileSync fs inputFile of
        Inl e \<Rightarrow>
          (Inl (ErrorReadingStream e),
           if writable fs outputFile then store fs outputFile [] else fs)
      | Inr text \<Rightarrow>
          if writable fs outputFile then
            (let st = stream_run now text in
             (Inr \<lparr>success = True,
                   message = ConvertedLines inputFile outputFile (lineCount st) (convertedCount st)\<rparr>,
              store fs outputFile (concat (written st))))
          else
            (let st = foldl on_line (stream_start now)
                        (take (delivered fs outputFile) (rl_lines [] text)) in
             (Inr \<lparr>success = True,
                   message = ConvertedLines inputFile outputFile (lineCount st) (convertedCount st)\<rparr>,
              fs)))"

subsection \<open>convertAndSave\<close>

definition failure :: "error \<Rightarrow> result" where
  "failure e = \<lparr>success = False, message = Failed e\<rparr>"

definition convertAndSave ::
    "jsstring \<Rightarrow> fsys \<Rightarrow> path \<Rightarrow> path \<Rightarrow> (error + result) \<times> fsys" where
  "convertAndSave now fs inputFile outputFile =
     (case statSync fs inputFile of
        Inl e \<Rightarrow> (Inr (failure e), fs)
      | Inr sz \<Rightarrow>
          if sz > 50 * (1024 * 1024) then convertLargeFileStreaming now fs inputFile outputFile
          else (case convertFile now fs inputFile of
                  Inl e \<Rightarrow> (Inr (failure e), fs)
                | Inr convertedContent \<Rightarrow>
                    (case writeFileSync fs outputFile convertedContent of
                       Inl e \<Rightarrow> (Inr (failure e), fs)
                     | Inr fs' \<Rightarrow>
                         (Inr \<lparr>success = True, message = Converted inputFile outputFile\<rparr>, fs'))))"

section \<open>The batch command\<close>

text \<open>
  The loop of the batch command over the files found. \<open>clock\<close> gives the time at which a
  file is converted and \<open>outputFile\<close> the path \<^verbatim>\<open>path.join(outputDir, ...)\<close> builds for
  it. A rejected promise is caught like a failed result.
\<close>

text \<open>
  The name \<^verbatim>\<open>`${path.basename(inputFile, '.sql')}_mysql.sql`\<close> of the output, for an
  input given by its bare file name: \<^verbatim>\<open>basename\<close> takes the extension off a name that
  ends with it (of the name \<^verbatim>\<open>.sql\<close> nothing is left).
\<close>

definition output_name :: "path \<Rightarrow> path" where
  "output_name inputFile =
     (if suffix ''.sql'' inputFile
      then take (length inputFile - 4) inputFile else inputFile) @ ''_mysql.sql''"

record batch_state =
  successCount :: nat
  errorCount :: nat
  disk :: fsys

definition batch_step ::
    "(path \<Rightarrow> jsstring) \<Rightarrow> (path \<Rightarrow> path) \<Rightarrow> batch_state \<Rightarrow> path \<Rightarrow> batch_state" where
  "batch_step clock outputFile st inputFile =
     (case convertAndSave (clock inputFile) (disk st) inputFile (outputFile inputFile) of
        (Inr res, fs') \<Rightarrow>
          if success res then st\<lparr>successCount := successCount st + 1, disk := fs'\<rparr>
          else st\<lparr>errorCount := errorCount st + 1, disk := fs'\<rparr>
      | (Inl e, fs') \<Rightarrow> st\<lparr>errorCount := errorCount st + 1, disk := fs'\<rparr>)"

definition batch_loop ::
    "(path \<Rightarrow> jsstring) \<Rightarrow> (path \<Rightarrow> path) \<Rightarrow> fsys \<Rightarrow> path list \<Rightarrow> batch_state" where
  "batch_loop clock outputFile fs fileList =
     foldl (batch_step clock outputFile) \<lparr>successCount = 0, errorCount = 0, disk = fs\<rparr> fileList"

section \<open>Notions used to state and prove the properties\<close>

text \<open>A run of code units of a class ends at the end of the text or before a code unit outside the class.\<close>

definition stops :: "('a \<Rightarrow> bool) \<Rightarrow> 'a list \<Rightarrow> bool" where
  "stops P r \<longleftrightarrow> (case r of [] \<Rightarrow> True | c # _ \<Rightarrow> \<not> P c)"

text \<open>The scan of a global pattern finds a match somewhere in the text.\<close>

fun has_match :: "regex \<Rightarrow> bool \<Rightarrow> jsstring \<Rightarrow> bool" where
  "has_match rx pw [] = False"
| "has_match rx pw (c # cs) =
     (case rx pw (c # cs) of None \<Rightarrow> has_match rx (is_word c) cs | Some m \<Rightarrow> True)"

text \<open>
  Some rule of the list matches when the rules are applied in turn, each to the text the
  rules before left.
\<close>

fun rule_matches :: "jsstring \<Rightarrow> rule list \<Rightarrow> bool" where
  "rule_matches text [] = False"
| "rule_matches text (conv # convs) =
     (has_match (pattern conv) False text \<or> rule_matches (apply_rule text conv) convs)"

text \<open>A call either threw or was rejected, or returned a result that tells of success or failure.\<close>

definition succeeded :: "error + result \<Rightarrow> bool" where
  "succeeded r = (case r of Inl e \<Rightarrow> False | Inr res \<Rightarrow> success res)"

text \<open>Every match of the pattern begins with a code unit of the set.\<close>

definition starts_in :: "regex \<Rightarrow> code_unit set \<Rightarrow> bool" where
  "starts_in rx A \<longleftrightarrow> (\<forall>pw s m. rx pw s = Some m \<longrightarrow> (\<exists>c cs. s = c # cs \<and> c \<in> A))"

text \<open>Every text the pattern matches at holds a code unit of the set.\<close>

definition needs :: "regex \<Rightarrow> code_unit set \<Rightarrow> bool" where
  "needs rx A \<longleftrightarrow> (\<forall>pw s m. rx pw s = Some m \<longrightarrow> set s \<inter> A \<noteq> {})"

text \<open>Whether the code unit before the position is a word character, after a piece of text.\<close>

definition pw_after :: "bool \<Rightarrow> jsstring \<Rightarrow> bool" where
  "pw_after pw pre = (if pre = [] then pw else is_word (last pre))"

text \<open>
  The replacement of a match is never a prefix of the text the match begins, so replacing
  changes the text; the replacement of a match is shorter than the match.
\<close>

definition alters :: "regex \<Rightarrow> piece list \<Rightarrow> bool" where
  "alters rx tpl \<longleftrightarrow> (\<forall>pw s n cap. rx pw s = Some (n, cap) \<longrightarrow> \<not> prefix (expand tpl cap) s)"

definition shrinks :: "regex \<Rightarrow> piece list \<Rightarrow> bool" where
  "shrinks rx tpl \<longleftrightarrow>
     (\<forall>pw s n cap. rx pw s = Some (n, cap) \<longrightarrow> length (expand tpl cap) < n \<and> n \<le> length s)"

text \<open>A rule changes exactly the texts its pattern matches in.\<close>

definition changes_iff_matches :: "rule \<Rightarrow> bool" where
  "changes_iff_matches conv \<longleftrightarrow>
     (\<forall>text. has_match (pattern conv) False text \<longleftrightarrow> apply_rule text conv \<noteq> text)"

text \<open>A path names a file that can be read.\<close>

definition is_readable :: "fsys \<Rightarrow> path \<Rightarrow> bool" where
  "is_readable fs p = (case files fs p of None \<Rightarrow> False | Some f \<Rightarrow> readable f)"

text \<open>What a conversion leaves of a file system: the files stay, readable or not as before.\<close>

definition keeps :: "fsys \<Rightarrow> fsys \<Rightarrow> bool" where
  "keeps fs fs' \<longleftrightarrow> writable fs' = writable fs
     \<and> (\<forall>p. files fs p \<noteq> None \<longrightarrow> files fs' p \<noteq> None \<and> is_readable fs' p = is_readable fs p)"

subsection \<open>File systems of the examples\<close>

text \<open>A directory with an empty source and one of white space only; every path can be written.\<close>

definition blank_fs :: fsys where
  "blank_fs =
     \<lparr>files = [''empty.sql'' \<mapsto> \<lparr>content = [], readable = True, bytes = 0\<rparr>,
                ''spaces.sql'' \<mapsto> \<lparr>content = js ''  '' @ [NL], readable = True, bytes = 3\<rparr>],
      writable = (\<lambda>p. True),
      delivered = (\<lambda>p. 0)\<rparr>"

text \<open>Two sources that can be read and one that cannot; every path can be written.\<close>

definition mixed_fs :: fsys where
  "mixed_fs =
     \<lparr>files = [''a.sql'' \<mapsto> \<lparr>content = js ''SELECT [Id]'', readable = True, bytes = 11\<rparr>,
                ''b.sql'' \<mapsto> \<lparr>content = js ''SELECT GETDATE()'', readable = True, bytes = 16\<rparr>,
                ''c.sql'' \<mapsto> \<lparr>content = js ''SELECT 1'', readable = False, bytes = 8\<rparr>],
      writable = (\<lambda>p. True),
      delivered = (\<lambda>p. 0)\<rparr>"

text \<open>
  A source that can be read, beside a file of the name of its output that can be neither
  read nor written (a file without permissions).
\<close>

definition locked_fs :: fsys where
  "locked_fs =
     \<lparr>files = [''a.sql'' \<mapsto> \<lparr>content = js ''SELECT [Id]'', readable = True, bytes = 11\<rparr>,
                ''a_mysql.sql'' \<mapsto> \<lparr>content = js ''SELECT 1'', readable = False, bytes = 8\<rparr>],
      writable = (\<lambda>p. p \<noteq> ''a_mysql.sql''),
      delivered = (\<lambda>p. 0)\<rparr>"

text \<open>
  A source of five lines, ended by CR LF, by LF (twice, the second line being empty), by a
  CR alone and by the end of the text; the fourth line holds the line separator U+2028. The
  rules change the first line only.
\<close>

definition stream_fs :: fsys where
  "stream_fs =
     \<lparr>files = [''big.sql'' \<mapsto>
         \<lparr>content = js ''SELECT [Id]'' @ [13, NL] @ js ''FROM t'' @ [NL, NL]
                     @ js ''x'' @ [8232] @ js ''y'' @ [13] @ js ''GO'',
          readable = True, bytes = 29\<rparr>],
      writable = (\<lambda>p. True),
      delivered = (\<lambda>p. 0)\<rparr>"

subsection \<open>Lines\<close>

text \<open>The code units at which \<^verbatim>\<open>readline\<close> ends a line: LF and CR.\<close>

definition is_eol :: "code_unit \<Rightarrow> bool" where
  "is_eol c \<longleftrightarrow> c = NL \<or> c = 13"

text \<open>
  A text written as its lines: each line of a list with the terminator that ends it, and
  what follows the last terminator. No line holds a CR or LF, and no LF follows a
  terminator that is a CR alone (the two would be the one terminator CR LF). Every text is
  such a text.
\<close>

datatype terminator = LF | CRLF | CR

fun eol_text :: "terminator \<Rightarrow> jsstring" where
  "eol_text LF = [NL]"
| "eol_text CRLF = [13, NL]"
| "eol_text CR = [13]"

fun join_lines :: "(jsstring \<times> terminator) list \<Rightarrow> jsstring \<Rightarrow> jsstring" where
  "join_lines [] rest = rest"
| "join_lines ((l, t) # lts) rest = l @ eol_text t @ join_lines lts rest"

fun well_ended :: "(jsstring \<times> terminator) list \<Rightarrow> jsstring \<Rightarrow> bool" where
  "well_ended [] rest = (\<not> list_ex is_eol rest)"
| "well_ended ((l, t) # lts) rest =
     (\<not> list_ex is_eol l \<and> (t \<noteq> CR \<or> stops (\<lambda>c. c = NL) (join_lines lts rest))
      \<and> well_ended lts rest)"

text \<open>The lines of such a text: what follows the last terminator is a line when it is not empty.\<close>

definition lines_of :: "(jsstring \<times> terminator) list \<Rightarrow> jsstring \<Rightarrow> jsstring list" where
  "lines_of lts rest = map fst lts @ (if rest = [] then [] else [rest])"

text \<open>
  The scan of a global pattern finds a match that holds a line terminator; and some rule of
  the list finds one, when the rules are applied in turn to the whole text.
\<close>

fun spans_line :: "regex \<Rightarrow> bool \<Rightarrow> jsstring \<Rightarrow> bool" where
  "spans_line rx pw [] = False"
| "spans_line rx pw (c # cs) =
     (case rx pw (c # cs) of
        None \<Rightarrow> spans_line rx (is_word c) cs
      | Some (n, cap) \<Rightarrow>
          list_ex is_eol (c # take (n - 1) cs)
          \<or> spans_line rx (is_word (last (c # take (n - 1) cs))) (drop (n - 1) cs))"

fun crosses :: "jsstring \<Rightarrow> rule list \<Rightarrow> bool" where
  "crosses text [] = False"
| "crosses text (conv # convs) =
     (spans_line (pattern conv) False text \<or> crosses (apply_rule text conv) convs)"

text \<open>A text with every line terminator (CR LF counting as one) replaced by a line feed.\<close>

fun norm_eol :: "jsstring \<Rightarrow> jsstring" where
  "norm_eol [] = []"
| "norm_eol [c] = (if is_eol c then [NL] else [c])"
| "norm_eol (c # d # cs) =
     (if c = 13 \<and> d = NL then NL # norm_eol cs
      else if is_eol c then NL # norm_eol (d # cs)
      else c # norm_eol (d # cs))"

text \<open>A function applied to each piece of a text between line terminators, the terminators kept.\<close>

fun per_line :: "(jsstring \<Rightarrow> jsstring) \<Rightarrow> jsstring \<Rightarrow> jsstring \<Rightarrow> jsstring" where
  "per_line f buf [] = f buf"
| "per_line f buf (c # cs) =
     (if is_eol c then f buf @ c # per_line f [] cs else per_line f (buf @ [c]) cs)"

text \<open>
  A pattern matches at the start of a line alone as it does at the start of the line
  followed by more lines, for the matches that end inside the line.
\<close>

definition line_local :: "regex \<Rightarrow> bool" where
  "line_local rx \<longleftrightarrow>
     (\<forall>pw l t r. \<not> list_ex is_eol l \<and> is_eol t \<longrightarrow>
        (\<forall>m. rx pw l = Some m \<longrightarrow> rx pw (l @ t # r) = Some m)
      \<and> (\<forall>n cap. rx pw (l @ t # r) = Some (n, cap) \<and> n \<le> length l \<longrightarrow> rx pw l = Some (n, cap)))"

text \<open>The replacement of a match in a text without line terminator has none.\<close>

definition eol_free :: "regex \<Rightarrow> piece list \<Rightarrow> bool" where
  "eol_free rx tpl \<longleftrightarrow>
     (\<forall>pw s n cap. rx pw s = Some (n, cap) \<and> \<not> list_ex is_eol s \<longrightarrow> \<not> list_ex is_eol (expand tpl cap))"

text \<open>The replacement of a match is never empty.\<close>

definition solid :: "regex \<Rightarrow> piece list \<Rightarrow> bool" where
  "solid rx tpl \<longleftrightarrow> (\<forall>pw s n cap. rx pw s = Some (n, cap) \<longrightarrow> expand tpl cap \<noteq> [])"

text \<open>
  A function on lines that keeps a line a line: no terminator comes in, the empty line
  stays empty and no other line becomes empty.
\<close>

definition line_fun :: "(jsstring \<Rightarrow> jsstring) \<Rightarrow> bool" where
  "line_fun f \<longleftrightarrow> (\<forall>l. \<not> list_ex is_eol l \<longrightarrow> \<not> list_ex is_eol (f l) \<and> (f l = [] \<longleftrightarrow> l = []))"

definition line_rule :: "rule \<Rightarrow> bool" where
  "line_rule conv \<longleftrightarrow> line_local (pattern conv)
     \<and> line_fun (\<lambda>l. apply_rule l conv)"

subsection \<open>Rules that do not match in what a rule wrote\<close>

text \<open>Two texts differ at a position that both have.\<close>

fun clash :: "jsstring \<Rightarrow> jsstring \<Rightarrow> bool" where
  "clash (x # xs) (y # ys) = (x \<noteq> y \<or> clash xs ys)"
| "clash xs ys = False"

text \<open>The non-empty suffixes of a text.\<close>

fun tails :: "jsstring \<Rightarrow> jsstring list" where
  "tails [] = []"
| "tails (x # xs) = (x # xs) # tails xs"

text \<open>
  A literal pattern and the fixed part of a replacement are apart: the pattern begins with
  no digit, differs from each suffix of the replacement at a common position, and each of
  its proper suffixes differs so from the replacement.
\<close>

definition apart :: "jsstring \<Rightarrow> jsstring \<Rightarrow> bool" where
  "apart p r0 \<longleftrightarrow> stops is_digit p \<and> p \<noteq> [] \<and> list_all (clash p) (tails r0)
     \<and> list_all (\<lambda>u. clash u r0) (tails (tl p))"

text \<open>
  Every replacement of the rule is the fixed text followed by digits; a match is not empty
  and ends inside the text, and its last code unit is a word character exactly when the
  last one of its replacement is.
\<close>

definition emits :: "regex \<Rightarrow> piece list \<Rightarrow> jsstring \<Rightarrow> bool" where
  "emits rx tpl r0 \<longleftrightarrow> r0 \<noteq> [] \<and>
     (\<forall>pw s n cap. rx pw s = Some (n, cap) \<longrightarrow>
        1 \<le> n \<and> n \<le> length s
        \<and> (\<exists>d. expand tpl cap = r0 @ d \<and> list_all is_digit d)
        \<and> is_word (last (expand tpl cap)) = is_word (last (take n s)))"

text \<open>
  The first pattern matches nowhere inside or across a replacement of the second rule, and
  where it matches in the output of the second rule at a copied code unit, it matched in
  the input.
\<close>

definition inert :: "regex \<Rightarrow> regex \<Rightarrow> piece list \<Rightarrow> bool" where
  "inert rxj rxk tpl \<longleftrightarrow>
     (\<forall>pw s n cap u pw' x. rxk pw s = Some (n, cap) \<and> u \<in> set (tails (expand tpl cap))
        \<longrightarrow> rxj pw' (u @ x) = None)
   \<and> (\<forall>pw c cs. rxk pw (c # cs) = None \<and> rxj pw (c # cs) = None
        \<longrightarrow> rxj pw (c # js_replace rxk tpl (is_word c) cs) = None)"

text \<open>Where the scan of the second pattern copies a code unit, the first pattern does not match.\<close>

fun quiet :: "regex \<Rightarrow> regex \<Rightarrow> bool \<Rightarrow> jsstring \<Rightarrow> bool" where
  "quiet rxj rxk pw [] = True"
| "quiet rxj rxk pw (c # cs) =
     (case rxk pw (c # cs) of
        None \<Rightarrow> rxj pw (c # cs) = None \<and> quiet rxj rxk (is_word c) cs
      | Some (n, cap) \<Rightarrow> quiet rxj rxk (is_word (last (c # take (n - 1) cs))) (drop (n - 1) cs))"

text \<open>
  The number of opening brackets: every match of the rule holds more of them than its
  replacement; every match holds as many as its replacement.
\<close>

definition brackets :: "jsstring \<Rightarrow> nat" where
  "brackets s = count_list s 91"

definition sheds :: "regex \<Rightarrow> piece list \<Rightarrow> bool" where
  "sheds rx tpl \<longleftrightarrow>
     (\<forall>pw s n cap. rx pw s = Some (n, cap) \<longrightarrow>
        1 \<le> n \<and> n \<le> length s \<and> brackets (expand tpl cap) < brackets (take n s))"

definition holds :: "regex \<Rightarrow> piece list \<Rightarrow> bool" where
  "holds rx tpl \<longleftrightarrow>
     (\<forall>pw s n cap. rx pw s = Some (n, cap) \<longrightarrow>
        1 \<le> n \<and> n \<le> length s \<and> brackets (expand tpl cap) = brackets (take n s))"

text \<open>A match of the pattern is never empty and ends inside the text.\<close>

definition progresses :: "regex \<Rightarrow> bool" where
  "progresses rx \<longleftrightarrow> (\<forall>pw s n cap. rx pw s = Some (n, cap) \<longrightarrow> 1 \<le> n \<and> n \<le> length s)"

subsection \<open>Pieces of a text\<close>

text \<open>
  A text ends inside a bracket: with an opening bracket followed by word characters only
  (or by nothing).
\<close>

definition inside_bracket :: "jsstring \<Rightarrow> bool" where
  "inside_bracket pre \<longleftrightarrow> (case dropWhile is_word (rev pre) of [] \<Rightarrow> False | c # _ \<Rightarrow> c = 91)"

text \<open>
  A rule applied to a piece of text, knowing whether the code unit before the piece is a
  word character (\<open>apply_rule\<close> is the case of a piece at the start of the text).
\<close>

definition apply_after :: "bool \<Rightarrow> jsstring \<Rightarrow> rule \<Rightarrow> jsstring" where
  "apply_after pw text conv = js_replace (pattern conv) (replacement conv) pw text"


section \<open>Basic facts\<close>

lemmas class_defs = is_digit_def is_word_def is_space_def ci_def
lemmas rx_defs = rx_dbo_def rx_bracket_def rx_lit_def rx_blit_def rx_top_def boundary_def
lemmas eval_defs = apply_conversions_def conversions_def apply_rule_def js_def rx_defs class_defs

lemma stops_simps [simp]: "stops P []" "stops P (c # cs) \<longleftrightarrow> \<not> P c"
  by (simp_all add: stops_def)

lemma takeWhile_run: "list_all P w \<Longrightarrow> stops P r \<Longrightarrow> takeWhile P (w @ r) = w"
  by (induction w) (auto simp: stops_def split: list.splits)

lemma dropWhile_run: "list_all P w \<Longrightarrow> stops P r \<Longrightarrow> dropWhile P (w @ r) = r"
  by (induction w) (auto simp: stops_def split: list.splits)

lemma stops_dropWhile: "stops P (dropWhile P s)"
  by (induction s) auto

lemma list_all_takeWhile: "list_all P (takeWhile P s)"
  by (induction s) auto

lemma rx_dbo_iff:
  "rx_dbo pw s = Some (n, cap) \<longleftrightarrow>
     (\<exists>rest. s = js ''[dbo].['' @ cap @ 93 # rest \<and> cap \<noteq> [] \<and> list_all is_word cap \<and> n = length cap + 8)"
  (is "?L \<longleftrightarrow> ?R")
proof
  assume a: ?L
  then have "prefix (js ''[dbo].['') s"
    by (simp add: rx_dbo_def split: if_splits)
  then obtain r where s: "s = js ''[dbo].['' @ r"
    by (auto simp: prefix_def)
  have l: "length (js ''[dbo].['') = 7" by (simp add: js_def)
  from a s l have c: "cap = takeWhile is_word r" "cap \<noteq> []" "take 1 (dropWhile is_word r) = [93]" "n = length cap + 8"
    by (auto simp: rx_dbo_def Let_def js_def split: if_splits)
  from c(3) obtain rest where d: "dropWhile is_word r = 93 # rest"
    by (cases "dropWhile is_word r") auto
  have "r = takeWhile is_word r @ dropWhile is_word r" by simp
  with c(1) d have "r = cap @ 93 # rest" by simp
  moreover have "list_all is_word cap" unfolding c(1) by (rule list_all_takeWhile)
  ultimately show ?R using s c(2,4) by blast
next
  assume ?R
  then obtain rest where s: "s = js ''[dbo].['' @ cap @ 93 # rest" and c: "cap \<noteq> []" "list_all is_word cap" "n = length cap + 8"
    by blast
  have l: "length (js ''[dbo].['') = 7" by (simp add: js_def)
  have nw: "stops is_word (93 # rest)" by (simp add: class_defs)
  have t: "takeWhile is_word (cap @ 93 # rest) = cap" "dropWhile is_word (cap @ 93 # rest) = 93 # rest"
    using c(2) nw by (rule takeWhile_run, rule dropWhile_run)
  have p: "prefix (js ''[dbo].['') s" using s by simp
  have "drop 7 s = cap @ 93 # rest" using s l by simp
  with p t c show ?L
    by (simp add: rx_dbo_def Let_def js_def)
qed

lemma rx_bracket_iff:
  "rx_bracket pw s = Some (n, cap) \<longleftrightarrow>
     (\<exists>rest. s = 91 # cap @ 93 # rest \<and> cap \<noteq> [] \<and> 93 \<notin> set cap \<and> n = length cap + 2)"
  (is "?L \<longleftrightarrow> ?R")
proof
  assume a: ?L
  then obtain r where s: "s = 91 # r"
    by (cases s) (simp_all add: rx_bracket_def split: if_splits)
  from a s have c: "cap = takeWhile (\<lambda>x. x \<noteq> 93) r" "cap \<noteq> []" "take 1 (dropWhile (\<lambda>x. x \<noteq> 93) r) = [93]" "n = length cap + 2"
    by (auto simp: rx_bracket_def js_def Let_def split: if_splits)
  from c(3) obtain rest where d: "dropWhile (\<lambda>x. x \<noteq> 93) r = 93 # rest"
    by (cases "dropWhile (\<lambda>x. x \<noteq> 93) r") auto
  have "r = takeWhile (\<lambda>x. x \<noteq> 93) r @ dropWhile (\<lambda>x. x \<noteq> 93) r" by simp
  with c(1) d have "r = cap @ 93 # rest" by simp
  moreover have "list_all (\<lambda>x. x \<noteq> 93) cap" unfolding c(1) by (rule list_all_takeWhile)
  then have "93 \<notin> set cap" by (auto simp: list_all_iff)
  ultimately show ?R using s c(2,4) by blast
next
  assume ?R
  then obtain rest where s: "s = 91 # cap @ 93 # rest" and c: "cap \<noteq> []" "93 \<notin> set cap" "n = length cap + 2"
    by blast
  have "list_all (\<lambda>x. x \<noteq> 93) cap" using c(2) by (auto simp: list_all_iff)
  moreover have "stops (\<lambda>x. x \<noteq> 93) (93 # rest)" by simp
  ultimately have "takeWhile (\<lambda>x. x \<noteq> 93) (cap @ 93 # rest) = cap" "dropWhile (\<lambda>x. x \<noteq> 93) (cap @ 93 # rest) = 93 # rest"
    by (rule takeWhile_run, rule dropWhile_run)
  with s c show ?L
    by (simp add: rx_bracket_def js_def)
qed

lemma rx_lit_iff: "rx_lit p pw s = Some (n, cap) \<longleftrightarrow> prefix p s \<and> n = length p \<and> cap = []"
  by (auto simp: rx_lit_def)

lemma rx_blit_iff:
  "rx_blit p pw s = Some (n, cap) \<longleftrightarrow> boundary pw s \<and> prefix p s \<and> n = length p \<and> cap = []"
  by (auto simp: rx_blit_def)

lemma rx_top_iff:
  "rx_top pw s = Some (n, cap) \<longleftrightarrow>
     (\<exists>c1 c2 c3 ws r2. s = c1 # c2 # c3 # ws @ cap @ r2 \<and> \<not> pw \<and> ci 84 c1 \<and> ci 79 c2 \<and> ci 80 c3
        \<and> ws \<noteq> [] \<and> list_all is_space ws \<and> cap \<noteq> [] \<and> list_all is_digit cap
        \<and> stops is_word r2 \<and> n = 3 + length ws + length cap)"
  (is "?L \<longleftrightarrow> ?R")
proof
  assume a: ?L
  then obtain c1 c2 c3 r where s: "s = c1 # c2 # c3 # r"
    by (auto simp: rx_top_def split: list.splits)
  define ws where "ws = takeWhile is_space r"
  define r1 where "r1 = dropWhile is_space r"
  define r2 where "r2 = dropWhile is_digit r1"
  from a s have c: "boundary pw s" "ci 84 c1" "ci 79 c2" "ci 80 c3" "ws \<noteq> []" "cap = takeWhile is_digit r1"
     "cap \<noteq> []" "boundary True r2" "n = 3 + length ws + length cap"
    by (auto simp: rx_top_def Let_def ws_def r1_def r2_def split: if_splits)
  have "is_word c1" using c(2) by (auto simp: class_defs)
  with c(1) s have 1: "\<not> pw" by (auto simp: boundary_def)
  have 2: "r = ws @ cap @ r2"
    unfolding ws_def c(6) r2_def r1_def by simp
  have 3: "list_all is_space ws" "list_all is_digit cap"
    unfolding ws_def c(6) by (rule list_all_takeWhile)+
  have 4: "stops is_word r2"
    using c(8) by (cases r2) (auto simp: boundary_def)
  show ?R using s 1 2 3 4 c by blast
next
  assume ?R
  then obtain c1 c2 c3 ws r2 where s: "s = c1 # c2 # c3 # ws @ cap @ r2" and c: "\<not> pw" "ci 84 c1" "ci 79 c2" "ci 80 c3"
     "ws \<noteq> []" "list_all is_space ws" "cap \<noteq> []" "list_all is_digit cap" "stops is_word r2"
     "n = 3 + length ws + length cap"
    by blast
  have "is_word c1" using c(2) by (auto simp: class_defs)
  then have b: "boundary pw s" using s c by (simp add: boundary_def)
  have d: "stops is_space (cap @ r2)" using c(7,8) by (cases cap) (auto simp: class_defs)
  have e: "stops is_digit r2" using c(9) by (cases r2) (auto simp: is_word_def)
  have 1: "takeWhile is_space (ws @ cap @ r2) = ws" "dropWhile is_space (ws @ cap @ r2) = cap @ r2"
    using c d by (simp_all add: takeWhile_run dropWhile_run)
  have 2: "takeWhile is_digit (cap @ r2) = cap" "dropWhile is_digit (cap @ r2) = r2"
    using c e by (simp_all add: takeWhile_run dropWhile_run)
  have 3: "boundary True r2" using c(9) by (cases r2) (auto simp: boundary_def)
  show ?L using s b c 1 2 3 by (simp add: rx_top_def)
qed

subsection \<open>Scanning\<close>

lemma js_replace_id: "\<not> has_match rx pw s \<Longrightarrow> js_replace rx tpl pw s = s"
  by (induction s arbitrary: pw) (auto split: option.splits)

lemma all_matches_Nil_iff: "all_matches rx pw s = [] \<longleftrightarrow> \<not> has_match rx pw s"
  by (induction s arbitrary: pw) (auto split: option.splits)

lemma js_match_None_iff: "js_match rx s = None \<longleftrightarrow> \<not> has_match rx False s"
  by (simp add: js_match_def Let_def all_matches_Nil_iff)

lemma js_replace_match:
  assumes "rx pw (m @ rest) = Some (length m, cap)" "m \<noteq> []"
  shows "js_replace rx tpl pw (m @ rest) = expand tpl cap @ js_replace rx tpl (is_word (last m)) rest"
proof -
  from assms(2) obtain c m' where m: "m = c # m'" by (cases m) auto
  have "c # take (length m') (m' @ rest) = m" using m by simp
  then show ?thesis using assms(1) m by simp
qed

lemma js_replace_nomatch:
  "rx pw (c # cs) = None \<Longrightarrow> js_replace rx tpl pw (c # cs) = c # js_replace rx tpl (is_word c) cs"
  by simp

lemma starts_in_no_match: "starts_in rx A \<Longrightarrow> set s \<inter> A = {} \<Longrightarrow> \<not> has_match rx pw s"
proof (induction s arbitrary: pw)
  case Nil then show ?case by simp
next
  case (Cons c cs)
  have "rx pw (c # cs) = None"
  proof (cases "rx pw (c # cs)")
    case (Some m)
    with Cons.prems(1) have "c \<in> A" unfolding starts_in_def by blast
    with Cons.prems(2) show ?thesis by auto
  qed simp
  moreover have "\<not> has_match rx (is_word c) cs" using Cons by auto
  ultimately show ?case by simp
qed

lemma starts_in_dbo: "starts_in rx_dbo {91}"
  unfolding starts_in_def by (auto simp: rx_dbo_iff js_def)

lemma starts_in_bracket: "starts_in rx_bracket {91}"
  unfolding starts_in_def by (auto simp: rx_bracket_iff)

lemma starts_in_lit: "starts_in (rx_lit (c # p)) {c}"
  unfolding starts_in_def by (auto simp: rx_lit_iff prefix_def)

lemma starts_in_blit: "starts_in (rx_blit (c # p)) {c}"
  unfolding starts_in_def by (auto simp: rx_blit_iff prefix_def)

lemma starts_in_top: "starts_in rx_top {84, 116}"
  unfolding starts_in_def by (auto simp: rx_top_iff ci_def)

subsection \<open>The rules one by one\<close>

lemma rx_top_match:
  assumes "\<not> pw" "ci 84 c1" "ci 79 c2" "ci 80 c3" "ws \<noteq> []" "list_all is_space ws"
    "cap \<noteq> []" "list_all is_digit cap" "stops is_word r2"
  shows "rx_top pw (c1 # c2 # c3 # ws @ cap @ r2) = Some (3 + length ws + length cap, cap)"
  unfolding rx_top_iff using assms by blast

lemma rx_dbo_match:
  assumes "cap \<noteq> []" "list_all is_word cap"
  shows "rx_dbo pw (js ''[dbo].['' @ cap @ 93 # rest) = Some (length cap + 8, cap)"
  unfolding rx_dbo_iff using assms by blast

lemma rx_bracket_match:
  assumes "cap \<noteq> []" "93 \<notin> set cap"
  shows "rx_bracket pw (91 # cap @ 93 # rest) = Some (length cap + 2, cap)"
  unfolding rx_bracket_iff using assms by blast

lemma apply_conversions_unfold:
  "apply_conversions t =
     js_replace rx_top [Lit (js ''LIMIT ''), Group1] False
      (js_replace (rx_blit (js ''ISNULL('')) [Lit (js ''IFNULL('')] False
       (js_replace (rx_blit (js ''LEN('')) [Lit (js ''LENGTH('')] False
        (js_replace (rx_lit (js ''NEWID()'')) [Lit (js ''UUID()'')] False
         (js_replace (rx_lit (js ''GETUTCDATE()'')) [Lit (js ''UTC_TIMESTAMP()'')] False
          (js_replace (rx_lit (js ''GETDATE()'')) [Lit (js ''NOW()'')] False
           (js_replace rx_bracket [Group1] False
            (js_replace rx_dbo [Group1] False t)))))))"
  by (simp add: apply_conversions_def conversions_def apply_rule_def)

lemma no_match_dbo: "91 \<notin> set s \<Longrightarrow> \<not> has_match rx_dbo pw s"
  by (rule starts_in_no_match[OF starts_in_dbo]) simp

lemma no_match_bracket: "91 \<notin> set s \<Longrightarrow> \<not> has_match rx_bracket pw s"
  by (rule starts_in_no_match[OF starts_in_bracket]) simp

lemma no_match_lit: "c \<notin> set s \<Longrightarrow> \<not> has_match (rx_lit (c # p)) pw s"
  by (rule starts_in_no_match[OF starts_in_lit]) simp

lemma no_match_blit: "c \<notin> set s \<Longrightarrow> \<not> has_match (rx_blit (c # p)) pw s"
  by (rule starts_in_no_match[OF starts_in_blit]) simp

lemma no_match_top: "84 \<notin> set s \<Longrightarrow> 116 \<notin> set s \<Longrightarrow> \<not> has_match rx_top pw s"
  by (rule starts_in_no_match[OF starts_in_top]) simp

lemma js_literals:
  "js ''GETDATE()'' = 71 # js ''ETDATE()''"
  "js ''GETUTCDATE()'' = 71 # js ''ETUTCDATE()''"
  "js ''NEWID()'' = 78 # js ''EWID()''"
  "js ''LEN('' = 76 # js ''EN(''"
  "js ''ISNULL('' = 73 # js ''SNULL(''"
  by (simp_all add: js_def)

text \<open>Rules 1 to 7 leave a text alone that has none of the code units their matches begin with.\<close>

lemma first_seven_id:
  assumes "91 \<notin> set t" "71 \<notin> set t" "78 \<notin> set t" "76 \<notin> set t" "73 \<notin> set t"
  shows "apply_conversions t = js_replace rx_top [Lit (js ''LIMIT ''), Group1] False t"
  unfolding apply_conversions_unfold js_literals
  using assms
  by (simp add: js_replace_id no_match_dbo no_match_bracket no_match_lit no_match_blit)

lemma needs_no_match: "needs rx A \<Longrightarrow> set s \<inter> A = {} \<Longrightarrow> \<not> has_match rx pw s"
proof (induction s arbitrary: pw)
  case Nil then show ?case by simp
next
  case (Cons c cs)
  have "rx pw (c # cs) = None"
  proof (cases "rx pw (c # cs)")
    case (Some m)
    with Cons.prems(1) have "set (c # cs) \<inter> A \<noteq> {}" unfolding needs_def by blast
    with Cons.prems(2) show ?thesis by simp
  qed simp
  moreover have "\<not> has_match rx (is_word c) cs" using Cons by auto
  ultimately show ?case by simp
qed

lemma needs_lit: "c \<in> set p \<Longrightarrow> needs (rx_lit p) {c}"
  unfolding needs_def by (auto simp: rx_lit_iff prefix_def)

lemma needs_blit: "c \<in> set p \<Longrightarrow> needs (rx_blit p) {c}"
  unfolding needs_def by (auto simp: rx_blit_iff prefix_def)

lemma needs_top: "needs rx_top {c. is_space c}"
  unfolding needs_def
proof (intro allI impI)
  fix pw s m assume "rx_top pw s = Some m"
  then obtain c1 c2 c3 ws r where "s = c1 # c2 # c3 # ws @ r" "ws \<noteq> []" "list_all is_space ws"
    by (cases m) (auto simp: rx_top_iff)
  then show "set s \<inter> {c. is_space c} \<noteq> {}"
    by (cases ws) auto
qed

lemma pw_indep:
  assumes "\<And>pw pw' s. rx pw s = rx pw' s"
  shows "js_replace rx tpl pw s = js_replace rx tpl pw' s"
proof (cases s)
  case Nil then show ?thesis by simp
next
  case (Cons c cs)
  then show ?thesis using assms[of pw s pw'] by (simp split: option.splits)
qed

lemma rx_dbo_pw: "rx_dbo pw s = rx_dbo pw' s"
  by (simp add: rx_dbo_def)

lemma rx_bracket_pw: "rx_bracket pw s = rx_bracket pw' s"
  by (simp add: rx_bracket_def)

lemma skip_prefix:
  assumes "starts_in rx A" "set pre \<inter> A = {}"
  shows "js_replace rx tpl pw (pre @ x) = pre @ js_replace rx tpl (pw_after pw pre) x"
  using assms(2)
proof (induction pre arbitrary: pw)
  case Nil then show ?case by (simp add: pw_after_def)
next
  case (Cons c cs)
  have "rx pw (c # cs @ x) = None"
  proof (cases "rx pw (c # cs @ x)")
    case (Some m)
    with assms(1) have "c \<in> A" unfolding starts_in_def by blast
    with Cons.prems show ?thesis by simp
  qed simp
  moreover have "js_replace rx tpl (is_word c) (cs @ x) = cs @ js_replace rx tpl (pw_after (is_word c) cs) x"
    using Cons by simp
  moreover have "pw_after (is_word c) cs = pw_after pw (c # cs)"
    by (simp add: pw_after_def)
  ultimately show ?case by simp
qed

lemma word_text:
  assumes "list_all is_word name"
  shows "91 \<notin> set name" "40 \<notin> set name" "set name \<inter> {c. is_space c} = {}"
  using assms by (auto simp: list_all_iff class_defs)

lemma replace_dbo_occurrence:
  assumes "name \<noteq> []" "list_all is_word name"
  shows "js_replace rx_dbo [Group1] pw (js ''[dbo].['' @ name @ js '']'' @ rest)
           = name @ js_replace rx_dbo [Group1] False rest"
proof -
  let ?m = "js ''[dbo].['' @ name @ js '']''"
  have l: "length ?m = length name + 8" "last ?m = 93" "?m \<noteq> []"
    by (simp_all add: js_def)
  have "rx_dbo pw (?m @ rest) = Some (length ?m, name)"
    using rx_dbo_match[OF assms, of pw rest] l(1) by (simp add: js_def)
  from js_replace_match[of rx_dbo pw ?m rest name "[Group1]", OF this l(3)]
  have "js_replace rx_dbo [Group1] pw (?m @ rest) = name @ js_replace rx_dbo [Group1] (is_word 93) rest"
    by (simp add: l(2))
  also have "js_replace rx_dbo [Group1] (is_word 93) rest = js_replace rx_dbo [Group1] False rest"
    by (rule pw_indep) (rule rx_dbo_pw)
  finally show ?thesis by simp
qed


subsection \<open>Lines, the header and the counters of the stream\<close>

lemma split_nl_not_Nil: "split_nl s \<noteq> []"
  by (induction s) (auto split: list.splits)

lemma split_nl_line: "NL \<notin> set a \<Longrightarrow> split_nl (a @ NL # b) = a # split_nl b"
  by (induction a) (auto split: list.splits simp: split_nl_not_Nil)

lemma header_lines:
  assumes "NL \<notin> set now"
  shows "split_nl (header now @ body) =
     js ''-- Converted from SQL Server to MySQL'' # (js ''-- Generated on: '' @ now)
       # js ''-- Use with caution and verify before executing'' # [] # split_nl body"
proof -
  have 1: "NL \<notin> set (js ''-- Converted from SQL Server to MySQL'')"
    "NL \<notin> set (js ''-- Generated on: '' @ now)"
    "NL \<notin> set (js ''-- Use with caution and verify before executing'')"
    using assms by (simp_all add: js_def)
  have e: "header now @ body = js ''-- Converted from SQL Server to MySQL'' @ NL #
     ((js ''-- Generated on: '' @ now) @ NL #
       (js ''-- Use with caution and verify before executing'' @ NL # (NL # body)))"
    by (simp add: header_def)
  show ?thesis
    unfolding e
    by (subst split_nl_line[OF 1(1)], subst split_nl_line[OF 1(2)], subst split_nl_line[OF 1(3)]) simp
qed

lemma written_foldl:
  "written (foldl on_line st ls) =
     written st @ map (\<lambda>l. fst (foldl line_step (l, False) conversions) @ [NL]) ls"
  by (induction ls arbitrary: st) (simp_all add: on_line_def Let_def split: prod.splits)

lemma lineCount_foldl: "lineCount (foldl on_line st ls) = lineCount st + length ls"
  by (induction ls arbitrary: st) (simp_all add: on_line_def Let_def split: prod.splits)

lemma convertedCount_foldl:
  "convertedCount (foldl on_line st ls) =
     convertedCount st + length (filter (\<lambda>l. snd (foldl line_step (l, False) conversions)) ls)"
  by (induction ls arbitrary: st) (simp_all add: on_line_def Let_def split: prod.splits)

lemma stats_foldl:
  "foldl (stats_step orig) acc convs =
     acc @ map (\<lambda>conv. \<lparr>entry_pattern = source conv, count = length (all_matches (pattern conv) False orig)\<rparr>)
            (filter (\<lambda>conv. has_match (pattern conv) False orig) convs)"
  by (induction convs arbitrary: acc)
     (auto simp: stats_step_def js_match_def Let_def all_matches_Nil_iff)


subsection \<open>A rule changes the texts its pattern matches in\<close>

lemma alters_changes:
  assumes "alters rx tpl"
  shows "has_match rx pw s \<Longrightarrow> js_replace rx tpl pw s \<noteq> s"
proof (induction s arbitrary: pw)
  case Nil then show ?case by simp
next
  case (Cons c cs)
  show ?case
  proof (cases "rx pw (c # cs)")
    case None
    with Cons show ?thesis by simp
  next
    case (Some m)
    obtain n cap where m: "m = (n, cap)" by (cases m)
    from assms Some m have np: "\<not> prefix (expand tpl cap) (c # cs)"
      unfolding alters_def by blast
    have "js_replace rx tpl pw (c # cs) =
        expand tpl cap @ js_replace rx tpl (is_word (last (c # take (n - 1) cs))) (drop (n - 1) cs)"
      using Some m by simp
    then have "prefix (expand tpl cap) (js_replace rx tpl pw (c # cs))"
      by (simp only: prefixI)
    with np show ?thesis by auto
  qed
qed

lemma shrinks_length:
  assumes "shrinks rx tpl"
  shows "length (js_replace rx tpl pw s) \<le> length s
     \<and> (has_match rx pw s \<longrightarrow> length (js_replace rx tpl pw s) < length s)"
proof (induction "length s" arbitrary: s pw rule: less_induct)
  case less
  show ?case
  proof (cases s)
    case Nil then show ?thesis by simp
  next
    case (Cons c cs)
    show ?thesis
    proof (cases "rx pw (c # cs)")
      case None
      have "length cs < length s" using Cons by simp
      from less[OF this, of "is_word c"] None Cons show ?thesis by simp
    next
      case (Some m)
      obtain n cap where m: "m = (n, cap)" by (cases m)
      from assms Some m have l: "length (expand tpl cap) < n" "n \<le> length (c # cs)"
        unfolding shrinks_def by blast+
      have d: "length (drop (n - 1) cs) < length s" using Cons by simp
      have "length (js_replace rx tpl (is_word (last (c # take (n - 1) cs))) (drop (n - 1) cs))
          \<le> length (drop (n - 1) cs)"
        using less[OF d] by blast
      moreover have "js_replace rx tpl pw s =
        expand tpl cap @ js_replace rx tpl (is_word (last (c # take (n - 1) cs))) (drop (n - 1) cs)"
        using Some m Cons by simp
      ultimately have "length (js_replace rx tpl pw s) < length s"
        using l Cons by simp
      then show ?thesis by simp
    qed
  qed
qed

lemma shrinks_changes:
  assumes "shrinks rx tpl" "has_match rx pw s"
  shows "js_replace rx tpl pw s \<noteq> s"
  using shrinks_length[OF assms(1), of pw s] assms(2) by auto

lemma changes_iff_matchesI:
  assumes "alters rx tpl \<or> shrinks rx tpl"
  shows "changes_iff_matches \<lparr>pattern = rx, source = src, replacement = tpl\<rparr>"
  unfolding changes_iff_matches_def apply_rule_def
  using assms alters_changes shrinks_changes js_replace_id
  by (metis rule.select_convs(1,3))

lemma alters_dbo: "alters rx_dbo [Group1]"
  unfolding alters_def
proof (intro allI impI)
  fix pw s n cap assume "rx_dbo pw s = Some (n, cap)"
  then obtain rest where s: "s = js ''[dbo].['' @ cap @ 93 # rest" and c: "cap \<noteq> []" "list_all is_word cap"
    unfolding rx_dbo_iff by blast
  from c obtain x xs where x: "cap = x # xs" "is_word x" by (cases cap) auto
  then have "x \<noteq> 91" by (auto simp: class_defs)
  then show "\<not> prefix (expand [Group1] cap) s"
    using s x by (simp add: js_def)
qed

lemma shrinks_bracket: "shrinks rx_bracket [Group1]"
  unfolding shrinks_def by (auto simp: rx_bracket_iff)

lemma alters_lit:
  assumes "p \<noteq> []" "r \<noteq> []" "hd p \<noteq> hd r"
  shows "alters (rx_lit p) [Lit r]"
  unfolding alters_def using assms
  by (cases p; cases r) (auto simp: rx_lit_iff prefix_def)

lemma alters_blit:
  assumes "\<not> prefix r p" "\<not> prefix p r"
  shows "alters (rx_blit p) [Lit r]"
  unfolding alters_def
proof (intro allI impI)
  fix pw s n cap assume "rx_blit p pw s = Some (n, cap)"
  then have "prefix p s" by (simp add: rx_blit_iff)
  moreover have "prefix r s \<Longrightarrow> prefix p s \<Longrightarrow> prefix r p \<or> prefix p r"
    by (metis prefix_same_cases)
  ultimately show "\<not> prefix (expand [Lit r] cap) s"
    using assms by auto
qed

lemma alters_top: "alters rx_top [Lit (js ''LIMIT ''), Group1]"
  unfolding alters_def
proof (intro allI impI)
  fix pw s n cap assume "rx_top pw s = Some (n, cap)"
  then obtain c1 r where "s = c1 # r" "ci 84 c1"
    unfolding rx_top_iff by blast
  then show "\<not> prefix (expand [Lit (js ''LIMIT ''), Group1] cap) s"
    by (auto simp: js_def ci_def)
qed

lemma conversions_change_iff_match: "list_all changes_iff_matches conversions"
proof -
  have "alters (rx_lit (js ''GETDATE()'')) [Lit (js ''NOW()'')]"
    "alters (rx_lit (js ''GETUTCDATE()'')) [Lit (js ''UTC_TIMESTAMP()'')]"
    "alters (rx_lit (js ''NEWID()'')) [Lit (js ''UUID()'')]"
    by (rule alters_lit; simp add: js_def)+
  moreover have "alters (rx_blit (js ''LEN('')) [Lit (js ''LENGTH('')]"
    "alters (rx_blit (js ''ISNULL('')) [Lit (js ''IFNULL('')]"
    by (rule alters_blit; simp add: js_def)+
  ultimately show ?thesis
    unfolding conversions_def
    by (simp add: changes_iff_matchesI alters_dbo shrinks_bracket alters_top)
qed

lemma line_steps:
  assumes "list_all changes_iff_matches convs"
  shows "foldl line_step (l, b) convs = (foldl apply_rule l convs, b \<or> rule_matches l convs)"
  using assms
proof (induction convs arbitrary: l b)
  case Nil then show ?case by simp
next
  case (Cons conv convs)
  from Cons.prems have "changes_iff_matches conv" and r: "list_all changes_iff_matches convs"
    by simp_all
  then have c: "has_match (pattern conv) False l \<longleftrightarrow> apply_rule l conv \<noteq> l"
    by (simp add: changes_iff_matches_def)
  have "line_step (l, b) conv = (apply_rule l conv, b \<or> has_match (pattern conv) False l)"
    using c by (auto simp: line_step_def Let_def apply_rule_def)
  then show ?case using Cons.IH[OF r] by auto
qed

lemma convert_line:
  "foldl line_step (l, False) conversions = (apply_conversions l, rule_matches l conversions)"
  by (simp add: line_steps[OF conversions_change_iff_match] apply_conversions_def)

lemma stream_run_eq:
  "stream_run now text =
     \<lparr>lineCount = length (rl_lines [] text),
      convertedCount = length (filter (\<lambda>l. rule_matches l conversions) (rl_lines [] text)),
      written = header now # map (\<lambda>l. apply_conversions l @ [NL]) (rl_lines [] text)\<rparr>"
proof -
  have "lineCount (stream_run now text) = length (rl_lines [] text)"
    "convertedCount (stream_run now text) = length (filter (\<lambda>l. rule_matches l conversions) (rl_lines [] text))"
    "written (stream_run now text) = header now # map (\<lambda>l. apply_conversions l @ [NL]) (rl_lines [] text)"
    by (simp_all add: stream_run_def stream_start_def lineCount_foldl convertedCount_foldl written_foldl convert_line)
  then show ?thesis by (cases "stream_run now text") simp
qed


subsection \<open>Blank texts and stored files\<close>

lemma blank_text:
  assumes "list_all is_space t"
  shows "91 \<notin> set t" "71 \<notin> set t" "78 \<notin> set t" "76 \<notin> set t" "73 \<notin> set t" "84 \<notin> set t" "116 \<notin> set t"
  using assms by (auto simp: list_all_iff class_defs)

lemma apply_conversions_blank: "list_all is_space t \<Longrightarrow> apply_conversions t = t"
  by (simp add: first_seven_id js_replace_id no_match_top blank_text)

lemma files_store: "files (store fs p text) p \<noteq> None" "map_option content (files (store fs p text) p) = Some text"
  by (simp_all add: store_def split: option.splits)


subsection \<open>One file of the batch\<close>

lemma keeps_refl: "keeps fs fs"
  by (simp add: keeps_def)

lemma keeps_store: "keeps fs (store fs p text)"
  by (auto simp: keeps_def store_def is_readable_def split: option.splits)

lemma keeps_trans: "keeps fs fs' \<Longrightarrow> keeps fs' fs'' \<Longrightarrow> keeps fs fs''"
  unfolding keeps_def by auto

lemma keeps_stream: "keeps fs (snd (convertLargeFileStreaming now fs i out))"
  by (auto simp: convertLargeFileStreaming_def Let_def keeps_refl keeps_store split: sum.splits)

lemma stream_unwritable:
  assumes "readFileSync fs i = Inr text" "\<not> writable fs out"
  shows "succeeded (fst (convertLargeFileStreaming now fs i out))"
    and "snd (convertLargeFileStreaming now fs i out) = fs"
  using assms by (simp_all add: convertLargeFileStreaming_def Let_def succeeded_def)

lemma stream_unreadable:
  assumes "readFileSync fs i = Inl e" "writable fs out"
  shows "fst (convertLargeFileStreaming now fs i out) = Inl (ErrorReadingStream e)"
    and "map_option content (files (snd (convertLargeFileStreaming now fs i out)) out) = Some []"
  using assms by (simp_all add: convertLargeFileStreaming_def files_store)

lemma keeps_convertAndSave: "keeps fs (snd (convertAndSave now fs i out))"
  by (auto simp: convertAndSave_def keeps_stream keeps_refl keeps_store writeFileSync_def
      split: sum.splits)

lemma convertAndSave_unreadable:
  assumes "\<not> is_readable fs i"
  shows "\<not> succeeded (fst (convertAndSave now fs i out))"
proof -
  have r: "\<exists>e. readFileSync fs i = Inl e"
    using assms by (auto simp: readFileSync_def is_readable_def split: option.splits)
  then have "\<not> succeeded (fst (convertLargeFileStreaming now fs i out))"
    by (auto simp: convertLargeFileStreaming_def succeeded_def)
  moreover from r have "\<exists>e. convertFile now fs i = Inl e"
    by (auto simp: convertFile_def)
  ultimately show ?thesis
    by (auto simp: convertAndSave_def succeeded_def failure_def split: sum.splits)
qed

lemma convertAndSave_readable:
  assumes "is_readable fs i" "writable fs out"
  shows "succeeded (fst (convertAndSave now fs i out))
     \<and> files (snd (convertAndSave now fs i out)) out \<noteq> None"
proof -
  from assms(1) obtain f where f: "files fs i = Some f" "readable f"
    by (auto simp: is_readable_def split: option.splits)
  then have r: "readFileSync fs i = Inr (content f)" by (simp add: readFileSync_def)
  have "succeeded (fst (convertLargeFileStreaming now fs i out))
     \<and> files (snd (convertLargeFileStreaming now fs i out)) out \<noteq> None"
    using r assms(2) files_store(1)[of fs out]
    by (auto simp: convertLargeFileStreaming_def Let_def succeeded_def)
  moreover have "convertFile now fs i = Inr (convertToMySQL now (content f))"
    using r by (simp add: convertFile_def)
  moreover have "files (store fs out (convertToMySQL now (content f))) out \<noteq> None"
    by (rule files_store)
  ultimately show ?thesis
    using f assms(2)
    by (auto simp: convertAndSave_def statSync_def writeFileSync_def succeeded_def)
qed

lemma batch_step_eq:
  "batch_step clock outputFile st inputFile =
     (let r = convertAndSave (clock inputFile) (disk st) inputFile (outputFile inputFile) in
      if succeeded (fst r) then st\<lparr>successCount := successCount st + 1, disk := snd r\<rparr>
      else st\<lparr>errorCount := errorCount st + 1, disk := snd r\<rparr>)"
  by (simp add: batch_step_def succeeded_def Let_def split: prod.splits sum.splits)

lemma batch_invariant:
  assumes "keeps fs (disk st)"
    and "\<And>p. p \<in> set fileList \<Longrightarrow> files fs p \<noteq> None"
    and "\<And>p. p \<in> set fileList \<Longrightarrow> is_readable fs p \<Longrightarrow> writable fs (outputFile p)"
  shows "successCount (foldl (batch_step clock outputFile) st fileList) =
           successCount st + length (filter (is_readable fs) fileList)
     \<and> errorCount (foldl (batch_step clock outputFile) st fileList) =
           errorCount st + length (filter (\<lambda>p. \<not> is_readable fs p) fileList)
     \<and> keeps fs (disk (foldl (batch_step clock outputFile) st fileList))
     \<and> (\<forall>q. files (disk st) q \<noteq> None \<longrightarrow> files (disk (foldl (batch_step clock outputFile) st fileList)) q \<noteq> None)
     \<and> (\<forall>p \<in> set fileList. is_readable fs p \<longrightarrow>
          files (disk (foldl (batch_step clock outputFile) st fileList)) (outputFile p) \<noteq> None)"
  using assms
proof (induction fileList arbitrary: st)
  case Nil then show ?case by simp
next
  case (Cons i rest)
  let ?r = "convertAndSave (clock i) (disk st) i (outputFile i)"
  let ?st = "batch_step clock outputFile st i"
  have k0: "keeps (disk st) (snd ?r)" by (rule keeps_convertAndSave)
  have k: "keeps fs (snd ?r)" by (rule keeps_trans[OF Cons.prems(1) k0])
  have ex: "files fs i \<noteq> None" using Cons.prems(2) by simp
  have rd: "is_readable (disk st) i = is_readable fs i"
    using Cons.prems(1) ex unfolding keeps_def by blast
  have wr: "writable (disk st) = writable fs"
    using Cons.prems(1) unfolding keeps_def by blast
  have d: "disk ?st = snd ?r" by (simp add: batch_step_eq Let_def)
  have keepq: "files (disk st) q \<noteq> None \<longrightarrow> files (disk ?st) q \<noteq> None" for q
    using k0 d unfolding keeps_def by auto
  have IH: "successCount (foldl (batch_step clock outputFile) ?st rest) =
           successCount ?st + length (filter (is_readable fs) rest)
     \<and> errorCount (foldl (batch_step clock outputFile) ?st rest) =
           errorCount ?st + length (filter (\<lambda>p. \<not> is_readable fs p) rest)
     \<and> keeps fs (disk (foldl (batch_step clock outputFile) ?st rest))
     \<and> (\<forall>q. files (disk ?st) q \<noteq> None \<longrightarrow> files (disk (foldl (batch_step clock outputFile) ?st rest)) q \<noteq> None)
     \<and> (\<forall>p \<in> set rest. is_readable fs p \<longrightarrow>
          files (disk (foldl (batch_step clock outputFile) ?st rest)) (outputFile p) \<noteq> None)"
    by (rule Cons.IH) (use k d Cons.prems in auto)
  show ?case
  proof (cases "is_readable fs i")
    case True
    then have w: "writable (disk st) (outputFile i)" using Cons.prems(3) wr by simp
    from convertAndSave_readable[OF _ w, of i "clock i"] True rd
    have s: "succeeded (fst ?r)" and o: "files (snd ?r) (outputFile i) \<noteq> None" by simp_all
    have c: "successCount ?st = successCount st + 1" "errorCount ?st = errorCount st"
      using s by (simp_all add: batch_step_eq Let_def)
    have o': "files (disk (foldl (batch_step clock outputFile) ?st rest)) (outputFile i) \<noteq> None"
      using IH o d by simp
    show ?thesis using IH c True o' keepq by auto
  next
    case False
    from convertAndSave_unreadable[of "disk st" i "clock i" "outputFile i"] False rd
    have s: "\<not> succeeded (fst ?r)" by simp
    have c: "successCount ?st = successCount st" "errorCount ?st = errorCount st + 1"
      using s by (simp_all add: batch_step_eq Let_def)
    show ?thesis using IH c False keepq by auto
  qed
qed

lemma output_names:
  "output_name ''a.sql'' = ''a_mysql.sql''" "output_name ''b.sql'' = ''b_mysql.sql''"
  "output_name ''c.sql'' = ''c_mysql.sql''" "output_name ''a_mysql.sql'' = ''a_mysql_mysql.sql''"
  "output_name ''.sql'' = ''_mysql.sql''" "output_name ''notes'' = ''notes_mysql.sql''"
  by (simp_all add: output_name_def suffix_to_prefix)


subsection \<open>Rules applied to a whole text and line by line\<close>

lemma is_eol_not_word: "is_eol c \<Longrightarrow> \<not> is_word c"
  by (auto simp: is_eol_def class_defs)

lemma per_line_free: "\<not> list_ex is_eol l \<Longrightarrow> per_line f buf l = f (buf @ l)"
  by (induction l arbitrary: buf) auto

lemma per_line_app:
  "\<not> list_ex is_eol l \<Longrightarrow> is_eol t \<Longrightarrow> per_line f buf (l @ t # r) = f (buf @ l) @ t # per_line f [] r"
  by (induction l arbitrary: buf) auto

lemma text_cases:
  obtains (line) "\<not> list_ex is_eol s"
  | (more) l t r where "s = l @ t # r" "\<not> list_ex is_eol l" "is_eol t"
proof (cases "list_ex is_eol s")
  case False then show ?thesis by (rule line)
next
  case True
  then obtain l t r where "s = l @ t # r" "is_eol t" "\<forall>x \<in> set l. \<not> is_eol x"
    unfolding list_ex_iff by (metis split_list_first_prop)
  then show ?thesis using more by (auto simp: list_ex_iff)
qed

lemma js_replace_Some:
  "rx pw (c # cs) = Some (n, cap) \<Longrightarrow>
     js_replace rx tpl pw (c # cs) =
       expand tpl cap @ js_replace rx tpl (is_word (last (c # take (n - 1) cs))) (drop (n - 1) cs)"
  by simp

lemma spans_line_Some:
  "rx pw (c # cs) = Some (n, cap) \<Longrightarrow>
     spans_line rx pw (c # cs) \<longleftrightarrow>
       list_ex is_eol (c # take (n - 1) cs)
       \<or> spans_line rx (is_word (last (c # take (n - 1) cs))) (drop (n - 1) cs)"
  by simp

text \<open>The scan of a line followed by more text, when no match holds a line terminator.\<close>

lemma js_replace_line:
  assumes "line_local rx"
  shows "\<not> list_ex is_eol l \<Longrightarrow> is_eol t \<Longrightarrow> \<not> spans_line rx pw (l @ t # r) \<Longrightarrow>
     js_replace rx tpl pw (l @ t # r) = js_replace rx tpl pw l @ t # js_replace rx tpl False r
     \<and> \<not> spans_line rx False r"
proof (induction "length l" arbitrary: l pw rule: less_induct)
  case less
  show ?case
  proof (cases l)
    case Nil
    have "rx pw (t # r) = None"
    proof (cases "rx pw (t # r)")
      case (Some m)
      then show ?thesis using less.prems Nil by (cases m) auto
    qed simp
    then show ?thesis using less.prems Nil by (simp add: is_eol_not_word)
  next
    case (Cons c l')
    have c: "\<not> is_eol c" "\<not> list_ex is_eol l'" using less.prems(1) Cons by simp_all
    show ?thesis
    proof (cases "rx pw (c # l' @ t # r)")
      case None
      have "rx pw (c # l') = None"
      proof (cases "rx pw (c # l')")
        case (Some m)
        with assms less.prems(1,2) Cons have "rx pw ((c # l') @ t # r) = Some m"
          unfolding line_local_def by blast
        with None show ?thesis by simp
      qed simp
      moreover have "\<not> spans_line rx (is_word c) (l' @ t # r)"
        using less.prems(3) Cons None by simp
      from less.hyps[of l', OF _ c(2) less.prems(2) this]
      have "js_replace rx tpl (is_word c) (l' @ t # r) = js_replace rx tpl (is_word c) l' @ t # js_replace rx tpl False r
         \<and> \<not> spans_line rx False r"
        using Cons by simp
      ultimately show ?thesis using None Cons by simp
    next
      case (Some m)
      obtain n cap where m: "m = (n, cap)" by (cases m)
      have sm: "rx pw (c # l' @ t # r) = Some (n, cap)" using Some m by simp
      have "\<not> spans_line rx pw (c # l' @ t # r)" using less.prems(3) Cons by simp
      then have ns: "\<not> list_ex is_eol (take (n - 1) (l' @ t # r))"
        and nr: "\<not> spans_line rx (is_word (last (c # take (n - 1) (l' @ t # r)))) (drop (n - 1) (l' @ t # r))"
        unfolding spans_line_Some[of rx pw c "l' @ t # r" n cap, OF sm] by simp_all
      have n: "n - 1 \<le> length l'"
      proof (rule ccontr)
        assume "\<not> n - 1 \<le> length l'"
        then obtain k where "n - 1 = length l' + Suc k"
          by (metis add_Suc_right less_imp_Suc_add not_le_imp_less)
        then have e: "take (n - 1) (l' @ t # r) = l' @ t # take k r"
          by simp
        have "list_ex is_eol (l' @ t # take k r)"
          using less.prems(2) by (simp add: list_ex_iff)
        then have "list_ex is_eol (take (n - 1) (l' @ t # r))"
          by (simp only: e)
        with ns show False by blast
      qed
      then have tk: "take (n - 1) (l' @ t # r) = take (n - 1) l'"
        and dr: "drop (n - 1) (l' @ t # r) = drop (n - 1) l' @ t # r"
        by simp_all
      have "n \<le> length (c # l')" using n by simp
      with assms less.prems(1,2) Cons Some m have line: "rx pw (c # l') = Some (n, cap)"
        unfolding line_local_def by (metis append_Cons)
      let ?pw = "is_word (last (c # take (n - 1) l'))"
      have "length (drop (n - 1) l') < length l" using Cons by simp
      moreover have "\<not> list_ex is_eol (drop (n - 1) l')"
        using c(2) by (auto simp: list_ex_iff dest: in_set_dropD)
      moreover have "\<not> spans_line rx ?pw (drop (n - 1) l' @ t # r)"
        using nr unfolding tk dr .
      ultimately have "js_replace rx tpl ?pw (drop (n - 1) l' @ t # r)
            = js_replace rx tpl ?pw (drop (n - 1) l') @ t # js_replace rx tpl False r
         \<and> \<not> spans_line rx False r"
        using less.hyps less.prems(2) by blast
      moreover have "js_replace rx tpl pw (c # l' @ t # r) =
          expand tpl cap @ js_replace rx tpl ?pw (drop (n - 1) l' @ t # r)"
        unfolding js_replace_Some[of rx pw c "l' @ t # r" n cap, OF sm] tk dr ..
      moreover have "js_replace rx tpl pw (c # l') =
          expand tpl cap @ js_replace rx tpl ?pw (drop (n - 1) l')"
        by (rule js_replace_Some[of rx pw c l' n cap, OF line])
      ultimately show ?thesis using Cons by simp
    qed
  qed
qed

lemma js_replace_per_line:
  assumes "line_local rx"
  shows "\<not> spans_line rx False s \<Longrightarrow> js_replace rx tpl False s = per_line (js_replace rx tpl False) [] s"
proof (induction "length s" arbitrary: s rule: less_induct)
  case less
  show ?case
  proof (cases s rule: text_cases)
    case line
    then show ?thesis by (simp add: per_line_free)
  next
    case (more l t r)
    from js_replace_line[OF assms more(2,3), of False r tpl] less.prems more(1)
    have a: "js_replace rx tpl False s = js_replace rx tpl False l @ t # js_replace rx tpl False r"
      and b: "\<not> spans_line rx False r" by simp_all
    have "length r < length s" using more(1) by simp
    from less.hyps[OF this b] a show ?thesis
      using more by (simp add: per_line_app)
  qed
qed

lemma js_replace_eol_free:
  assumes "eol_free rx tpl"
  shows "\<not> list_ex is_eol s \<Longrightarrow> \<not> list_ex is_eol (js_replace rx tpl pw s)"
proof (induction "length s" arbitrary: s pw rule: less_induct)
  case less
  show ?case
  proof (cases s)
    case Nil then show ?thesis by simp
  next
    case (Cons c cs)
    show ?thesis
    proof (cases "rx pw (c # cs)")
      case None
      have "length cs < length s" using Cons by simp
      from less.hyps[OF this, of "is_word c"] less.prems None Cons show ?thesis by simp
    next
      case (Some m)
      obtain n cap where m: "m = (n, cap)" by (cases m)
      have sm: "rx pw (c # cs) = Some (n, cap)" using Some m by simp
      from assms sm less.prems Cons have "\<not> list_ex is_eol (expand tpl cap)"
        unfolding eol_free_def by blast
      moreover have "length (drop (n - 1) cs) < length s" using Cons by simp
      moreover have "\<not> list_ex is_eol (drop (n - 1) cs)"
        using less.prems Cons by (auto simp: list_ex_iff dest: in_set_dropD)
      ultimately show ?thesis
        using less.hyps unfolding Cons js_replace_Some[of rx pw c cs n cap, OF sm]
        by (simp only: list_ex_append) blast
    qed
  qed
qed

lemma js_replace_solid:
  assumes "solid rx tpl"
  shows "js_replace rx tpl pw s = [] \<longleftrightarrow> s = []"
proof (cases s)
  case Nil then show ?thesis by simp
next
  case (Cons c cs)
  show ?thesis
  proof (cases "rx pw (c # cs)")
    case None
    then show ?thesis using Cons by simp
  next
    case (Some m)
    obtain n cap where m: "m = (n, cap)" by (cases m)
    with assms Some have "expand tpl cap \<noteq> []" unfolding solid_def by blast
    then show ?thesis using Some m Cons by simp
  qed
qed

lemma line_ruleI:
  assumes "line_local rx" "eol_free rx tpl" "solid rx tpl"
  shows "line_rule \<lparr>pattern = rx, source = src, replacement = tpl\<rparr>"
  unfolding line_rule_def line_fun_def apply_rule_def
  using assms js_replace_eol_free js_replace_solid by simp

lemma per_line_id: "per_line (\<lambda>l. l) buf s = buf @ s"
  by (induction s arbitrary: buf) auto

lemma per_line_comp:
  assumes "line_fun g"
  shows "\<not> list_ex is_eol buf \<Longrightarrow> per_line f [] (per_line g buf s) = per_line (\<lambda>l. f (g l)) buf s"
proof (induction s arbitrary: buf)
  case Nil
  then have "\<not> list_ex is_eol (g buf)" using assms unfolding line_fun_def by blast
  then show ?case by (simp add: per_line_free)
next
  case (Cons c cs)
  show ?case
  proof (cases "is_eol c")
    case True
    have "\<not> list_ex is_eol (g buf)" using assms Cons.prems unfolding line_fun_def by blast
    then have "per_line f [] (g buf @ c # per_line g [] cs) = f ([] @ g buf) @ c # per_line f [] (per_line g [] cs)"
      using True by (rule per_line_app)
    then show ?thesis using True Cons.IH[of "[]"] by simp
  next
    case False
    then show ?thesis using Cons.IH[of "buf @ [c]"] Cons.prems by simp
  qed
qed

lemma line_fun_comp: "line_fun f \<Longrightarrow> line_fun g \<Longrightarrow> line_fun (\<lambda>l. f (g l))"
  unfolding line_fun_def by simp

lemma line_fun_fold: "list_all line_rule convs \<Longrightarrow> line_fun (\<lambda>l. foldl apply_rule l convs)"
proof (induction convs rule: rev_induct)
  case Nil then show ?case by (simp add: line_fun_def)
next
  case (snoc conv convs)
  then have a: "line_fun (\<lambda>l. foldl apply_rule l convs)" and b: "line_fun (\<lambda>l. apply_rule l conv)"
    by (simp_all add: line_rule_def)
  have "line_fun (\<lambda>l. apply_rule (foldl apply_rule l convs) conv)"
    by (rule line_fun_comp[OF b a])
  then show ?case by simp
qed

lemma fold_per_line:
  "list_all line_rule convs \<Longrightarrow> \<not> crosses s convs \<Longrightarrow>
     foldl apply_rule s convs = per_line (\<lambda>l. foldl apply_rule l convs) [] s"
proof (induction convs arbitrary: s)
  case Nil then show ?case by (simp add: per_line_id)
next
  case (Cons conv convs)
  from Cons.prems have "line_rule conv" and rest: "list_all line_rule convs"
    and ns: "\<not> spans_line (pattern conv) False s" and nc: "\<not> crosses (apply_rule s conv) convs"
    by simp_all
  then have lr: "line_local (pattern conv)" "line_fun (\<lambda>l. apply_rule l conv)"
    by (simp_all add: line_rule_def)
  have "apply_rule s conv = per_line (\<lambda>l. apply_rule l conv) [] s"
    unfolding apply_rule_def using js_replace_per_line[OF lr(1) ns] by simp
  moreover have "foldl apply_rule (apply_rule s conv) convs
      = per_line (\<lambda>l. foldl apply_rule l convs) [] (apply_rule s conv)"
    by (rule Cons.IH[OF rest nc])
  moreover have "per_line (\<lambda>l. foldl apply_rule l convs) [] (per_line (\<lambda>l. apply_rule l conv) [] s)
      = per_line (\<lambda>l. foldl apply_rule (apply_rule l conv) convs) [] s"
    by (rule per_line_comp[OF lr(2)]) simp
  ultimately show ?case by simp
qed

lemma append_longer:
  assumes "l @ x = m @ y" "length m \<le> length l"
  obtains z where "l = m @ z" "y = z @ x"
  using assms by (auto simp: append_eq_append_conv2)

lemma stops_word_eol: "stops is_word z \<Longrightarrow> is_eol t \<Longrightarrow> stops is_word (z @ t # r)"
  by (cases z) (simp_all add: is_eol_not_word)

lemma stops_prefix: "stops P (z @ t # r) \<Longrightarrow> stops P z"
  by (cases z) simp_all

lemma boundary_eol: "is_eol t \<Longrightarrow> boundary pw (l @ t # r) = boundary pw l"
  by (cases l) (simp_all add: boundary_def is_eol_not_word)

lemma line_local_lit: "line_local (rx_lit p)"
  unfolding line_local_def
  by (auto simp: rx_lit_iff prefix_append)

lemma line_local_blit: "line_local (rx_blit p)"
  unfolding line_local_def
  by (auto simp: rx_blit_iff prefix_append boundary_eol)

lemma line_local_dbo: "line_local rx_dbo"
  unfolding line_local_def
proof (intro allI impI conjI)
  fix pw l t r m
  assume "\<not> list_ex is_eol l \<and> is_eol t" "rx_dbo pw l = Some m"
  then obtain n cap rest where m: "m = (n, cap)"
    and "l = js ''[dbo].['' @ cap @ 93 # rest" "cap \<noteq> []" "list_all is_word cap" "n = length cap + 8"
    by (cases m) (auto simp: rx_dbo_iff)
  then have "l @ t # r = js ''[dbo].['' @ cap @ 93 # (rest @ t # r) \<and> cap \<noteq> [] \<and> list_all is_word cap \<and> n = length cap + 8"
    by simp
  then show "rx_dbo pw (l @ t # r) = Some m"
    unfolding m rx_dbo_iff by blast
next
  fix pw l t r n cap
  assume "\<not> list_ex is_eol l \<and> is_eol t" and a: "rx_dbo pw (l @ t # r) = Some (n, cap) \<and> n \<le> length l"
  then obtain rest where w: "l @ t # r = (js ''[dbo].['' @ cap @ [93]) @ rest"
    and c: "cap \<noteq> []" "list_all is_word cap" "n = length cap + 8"
    by (auto simp: rx_dbo_iff)
  have "length (js ''[dbo].['' @ cap @ [93]) \<le> length l" using a c by (simp add: js_def)
  from append_longer[OF w this] obtain z where "l = (js ''[dbo].['' @ cap @ [93]) @ z" by blast
  then have "l = js ''[dbo].['' @ cap @ 93 # z" by simp
  with c show "rx_dbo pw l = Some (n, cap)"
    unfolding rx_dbo_iff by blast
qed

lemma line_local_bracket: "line_local rx_bracket"
  unfolding line_local_def
proof (intro allI impI conjI)
  fix pw l t r m
  assume "\<not> list_ex is_eol l \<and> is_eol t" "rx_bracket pw l = Some m"
  then obtain n cap rest where m: "m = (n, cap)"
    and "l = 91 # cap @ 93 # rest" "cap \<noteq> []" "93 \<notin> set cap" "n = length cap + 2"
    by (cases m) (auto simp: rx_bracket_iff)
  then have "l @ t # r = 91 # cap @ 93 # (rest @ t # r) \<and> cap \<noteq> [] \<and> 93 \<notin> set cap \<and> n = length cap + 2"
    by simp
  then show "rx_bracket pw (l @ t # r) = Some m"
    unfolding m rx_bracket_iff by blast
next
  fix pw l t r n cap
  assume "\<not> list_ex is_eol l \<and> is_eol t" and a: "rx_bracket pw (l @ t # r) = Some (n, cap) \<and> n \<le> length l"
  then obtain rest where w: "l @ t # r = (91 # cap @ [93]) @ rest"
    and c: "cap \<noteq> []" "93 \<notin> set cap" "n = length cap + 2"
    by (auto simp: rx_bracket_iff)
  have "length (91 # cap @ [93]) \<le> length l" using a c by simp
  from append_longer[OF w this] obtain z where "l = (91 # cap @ [93]) @ z" by blast
  then have "l = 91 # cap @ 93 # z" by simp
  with c show "rx_bracket pw l = Some (n, cap)"
    unfolding rx_bracket_iff by blast
qed

lemma line_local_top: "line_local rx_top"
  unfolding line_local_def
proof (intro allI impI conjI)
  fix pw l t r m
  assume e: "\<not> list_ex is_eol l \<and> is_eol t" and "rx_top pw l = Some m"
  then obtain n cap c1 c2 c3 ws r2 where m: "m = (n, cap)"
    and l: "l = c1 # c2 # c3 # ws @ cap @ r2" and c: "\<not> pw" "ci 84 c1" "ci 79 c2" "ci 80 c3"
      "ws \<noteq> []" "list_all is_space ws" "cap \<noteq> []" "list_all is_digit cap" "stops is_word r2"
      "n = 3 + length ws + length cap"
    by (cases m) (auto simp: rx_top_iff)
  have "stops is_word (r2 @ t # r)" using c(9) e by (simp add: stops_word_eol)
  from rx_top_match[OF c(1-8) this] l c(10) show "rx_top pw (l @ t # r) = Some m"
    unfolding m by simp
next
  fix pw l t r n cap
  assume e: "\<not> list_ex is_eol l \<and> is_eol t" and a: "rx_top pw (l @ t # r) = Some (n, cap) \<and> n \<le> length l"
  then obtain c1 c2 c3 ws r2 where w: "l @ t # r = (c1 # c2 # c3 # ws @ cap) @ r2"
    and c: "\<not> pw" "ci 84 c1" "ci 79 c2" "ci 80 c3"
      "ws \<noteq> []" "list_all is_space ws" "cap \<noteq> []" "list_all is_digit cap" "stops is_word r2"
      "n = 3 + length ws + length cap"
    by (auto simp: rx_top_iff)
  have "length (c1 # c2 # c3 # ws @ cap) \<le> length l" using a c by simp
  from append_longer[OF w this] obtain z where z: "l = (c1 # c2 # c3 # ws @ cap) @ z" "r2 = z @ t # r" by blast
  have "stops is_word z" using c(9) z(2) by (simp add: stops_prefix)
  from rx_top_match[OF c(1-8) this] z(1) c(10) show "rx_top pw l = Some (n, cap)"
    by simp
qed

lemma eol_free_capture:
  assumes "\<And>pw s n cap. rx pw s = Some (n, cap) \<Longrightarrow> set cap \<subseteq> set s"
    and "\<not> list_ex is_eol (expand tpl [])"
  shows "eol_free rx tpl"
  unfolding eol_free_def
proof (intro allI impI)
  fix pw s n cap assume a: "rx pw s = Some (n, cap) \<and> \<not> list_ex is_eol s"
  then have "\<not> list_ex is_eol cap" using assms(1)[of pw s n cap] by (auto simp: list_ex_iff)
  then show "\<not> list_ex is_eol (expand tpl cap)"
    using assms(2) by (induction tpl cap rule: expand.induct) auto
qed

lemma solid_lit: "r \<noteq> [] \<Longrightarrow> solid rx (Lit r # tpl)"
  by (simp add: solid_def)

lemma conversions_line_rules: "list_all line_rule conversions"
proof -
  have d: "eol_free rx_dbo [Group1]"
    by (rule eol_free_capture) (auto simp: rx_dbo_iff)
  have d': "solid rx_dbo [Group1]"
    by (auto simp: rx_dbo_iff solid_def)
  have b: "eol_free rx_bracket [Group1]"
    by (rule eol_free_capture) (auto simp: rx_bracket_iff)
  have b': "solid rx_bracket [Group1]"
    by (auto simp: rx_bracket_iff solid_def)
  have t: "eol_free rx_top [Lit (js ''LIMIT ''), Group1]"
    by (rule eol_free_capture) (auto simp: rx_top_iff js_def is_eol_def)
  have l: "eol_free (rx_lit p) [Lit r]" if "\<not> list_ex is_eol r" for p r
    by (rule eol_free_capture) (use that in \<open>simp_all add: rx_lit_iff\<close>)
  have l': "eol_free (rx_blit p) [Lit r]" if "\<not> list_ex is_eol r" for p r
    by (rule eol_free_capture) (use that in \<open>simp_all add: rx_blit_iff\<close>)
  have e: "\<not> list_ex is_eol (js ''NOW()'')" "\<not> list_ex is_eol (js ''UTC_TIMESTAMP()'')"
    "\<not> list_ex is_eol (js ''UUID()'')" "\<not> list_ex is_eol (js ''LENGTH('')" "\<not> list_ex is_eol (js ''IFNULL('')"
    by (simp_all add: js_def is_eol_def)
  have n: "js ''NOW()'' \<noteq> []" "js ''UTC_TIMESTAMP()'' \<noteq> []" "js ''UUID()'' \<noteq> []" "js ''LENGTH('' \<noteq> []"
    "js ''IFNULL('' \<noteq> []" "js ''LIMIT '' \<noteq> []"
    by (simp_all add: js_def)
  show ?thesis
    unfolding conversions_def
    by (simp add: line_ruleI line_local_dbo line_local_bracket line_local_lit line_local_blit
        line_local_top d d' b b' t l l' e solid_lit n)
qed

lemma line_fun_Nil: "line_fun f \<Longrightarrow> f [] = []"
  unfolding line_fun_def by (drule spec[of _ "[]"]) simp

lemma norm_eol_free: "\<not> list_ex is_eol x \<Longrightarrow> norm_eol (x @ y) = x @ norm_eol y"
proof (induction x)
  case Nil then show ?case by simp
next
  case (Cons c x)
  then have c: "\<not> is_eol c" and "norm_eol (x @ y) = x @ norm_eol y" by simp_all
  then show ?case by (cases "x @ y") (auto simp: is_eol_def)
qed

lemma norm_eol_eol:
  assumes "is_eol c" "\<not> (c = 13 \<and> take 1 q = [NL])"
  shows "norm_eol (c # q) = NL # norm_eol q"
  using assms by (cases q) auto

lemma per_line_head:
  assumes "line_fun f" "d \<noteq> NL"
  shows "take 1 (per_line f [] (d # cs)) \<noteq> [NL]"
proof (cases "is_eol d")
  case True
  from assms(1) have "f [] = []" by (rule line_fun_Nil)
  then show ?thesis using True assms(2) by simp
next
  case False
  have *: "take 1 (f l @ y) \<noteq> [NL]" if "\<not> list_ex is_eol l" "l \<noteq> []" for l y
  proof -
    from assms(1) that have "\<not> list_ex is_eol (f l)" "f l \<noteq> []"
      unfolding line_fun_def by blast+
    then show ?thesis by (cases "f l") (auto simp: is_eol_def)
  qed
  show ?thesis
  proof (cases cs rule: text_cases)
    case line
    then have "per_line f [] (d # cs) = f (d # cs)" using False by (simp add: per_line_free)
    moreover have "take 1 (f (d # cs) @ []) \<noteq> [NL]"
      by (rule *) (use line False in simp_all)
    ultimately show ?thesis by simp
  next
    case (more l t r)
    then have "per_line f [] (d # cs) = f (d # l) @ t # per_line f [] r"
      using False by (simp add: per_line_app)
    moreover have "take 1 (f (d # l) @ t # per_line f [] r) \<noteq> [NL]"
      by (rule *) (use more False in simp_all)
    ultimately show ?thesis by simp
  qed
qed

lemma rl_lines_per_line:
  assumes "line_fun f"
  shows "\<not> list_ex is_eol buf \<Longrightarrow>
     concat (map (\<lambda>l. f l @ [NL]) (rl_lines buf s)) =
       norm_eol (per_line f buf s) @ (if buf @ s = [] \<or> is_eol (last (buf @ s)) then [] else [NL])"
proof (induction buf s rule: rl_lines.induct)
  case (1 buf)
  from assms have e: "f [] = []" by (rule line_fun_Nil)
  from assms 1 have "\<not> list_ex is_eol (f buf)" unfolding line_fun_def by blast
  then have n: "norm_eol (f buf @ []) = f buf @ norm_eol []" by (rule norm_eol_free)
  have "buf \<noteq> [] \<Longrightarrow> \<not> is_eol (last buf)" using 1 by (auto simp: list_ex_iff)
  then show ?case using e n by auto
next
  case (2 buf c)
  from assms have e: "f [] = []" by (rule line_fun_Nil)
  show ?case
  proof (cases "is_eol c")
    case True
    from assms 2 have "\<not> list_ex is_eol (f buf)" unfolding line_fun_def by blast
    then have "norm_eol (f buf @ [c]) = f buf @ norm_eol [c]" by (rule norm_eol_free)
    then show ?thesis using True e by (auto simp: is_eol_def)
  next
    case False
    then have b: "\<not> list_ex is_eol (buf @ [c])" using 2 by simp
    with assms have "\<not> list_ex is_eol (f (buf @ [c]))" unfolding line_fun_def by blast
    then have "norm_eol (f (buf @ [c]) @ []) = f (buf @ [c]) @ norm_eol []" by (rule norm_eol_free)
    then show ?thesis using False by (auto simp: is_eol_def)
  qed
next
  case (3 buf c d cs)
  from assms have e: "f [] = []" by (rule line_fun_Nil)
  from assms 3(4) have fb: "\<not> list_ex is_eol (f buf)" unfolding line_fun_def by blast
  show ?case
  proof (cases "c = 13 \<and> d = NL")
    case True
    then have cd: "is_eol c" "is_eol d" by (simp_all add: is_eol_def)
    define Q where "Q = per_line f [] cs"
    define T where "T = (if cs = [] \<or> is_eol (last cs) then [] else [NL])"
    have "concat (map (\<lambda>l. f l @ [NL]) (rl_lines [] cs)) =
        norm_eol (per_line f [] cs) @ (if [] @ cs = [] \<or> is_eol (last ([] @ cs)) then [] else [NL])"
      by (rule 3(1)[OF True]) simp
    then have ih: "concat (map (\<lambda>l. f l @ [NL]) (rl_lines [] cs)) = norm_eol Q @ T"
      by (simp add: Q_def T_def)
    have l: "rl_lines buf (c # d # cs) = buf # rl_lines [] cs" using True by simp
    have p: "per_line f buf (c # d # cs) = f buf @ 13 # NL # Q"
      using True cd e by (simp add: Q_def)
    have "norm_eol (f buf @ 13 # NL # Q) = f buf @ norm_eol (13 # NL # Q)"
      by (rule norm_eol_free[OF fb])
    then have n: "norm_eol (f buf @ 13 # NL # Q) = f buf @ NL # norm_eol Q" by simp
    have t: "(if buf @ c # d # cs = [] \<or> is_eol (last (buf @ c # d # cs)) then [] else [NL]) = T"
      using True cd by (simp add: T_def)
    show ?thesis unfolding l p n t using ih by simp
  next
    case nocrlf: False
    define Q where "Q = per_line f [] (d # cs)"
    define T where "T = (if is_eol (last (d # cs)) then [] else [NL])"
    have t: "(if buf @ c # d # cs = [] \<or> is_eol (last (buf @ c # d # cs)) then [] else [NL]) = T"
      by (simp add: T_def)
    show ?thesis
    proof (cases "is_eol c")
      case True
      then have c: "c = 13 \<or> c = NL" by (auto simp: is_eol_def)
      have "concat (map (\<lambda>l. f l @ [NL]) (rl_lines [] (d # cs))) =
          norm_eol (per_line f [] (d # cs)) @ (if [] @ d # cs = [] \<or> is_eol (last ([] @ d # cs)) then [] else [NL])"
        by (rule 3(2)[OF nocrlf c]) simp
      then have ih: "concat (map (\<lambda>l. f l @ [NL]) (rl_lines [] (d # cs))) = norm_eol Q @ T"
        by (simp add: Q_def T_def)
      have l: "rl_lines buf (c # d # cs) = buf # rl_lines [] (d # cs)" using nocrlf c by auto
      have p: "per_line f buf (c # d # cs) = f buf @ c # Q"
        unfolding Q_def using True by (subst per_line.simps(2)) simp
      have "\<not> (c = 13 \<and> take 1 Q = [NL])"
        unfolding Q_def using nocrlf per_line_head[OF assms, of d cs] by blast
      then have "norm_eol (c # Q) = NL # norm_eol Q"
        by (rule norm_eol_eol[OF True])
      moreover have "norm_eol (f buf @ c # Q) = f buf @ norm_eol (c # Q)"
        by (rule norm_eol_free[OF fb])
      ultimately have n: "norm_eol (f buf @ c # Q) = f buf @ NL # norm_eol Q" by simp
      show ?thesis unfolding l p n t using ih by simp
    next
      case False
      then have c: "\<not> (c = 13 \<or> c = NL)" by (auto simp: is_eol_def)
      have "concat (map (\<lambda>l. f l @ [NL]) (rl_lines (buf @ [c]) (d # cs))) =
          norm_eol (per_line f (buf @ [c]) (d # cs))
            @ (if (buf @ [c]) @ d # cs = [] \<or> is_eol (last ((buf @ [c]) @ d # cs)) then [] else [NL])"
        by (rule 3(3)[OF nocrlf c]) (use 3(4) False in simp)
      then have ih: "concat (map (\<lambda>l. f l @ [NL]) (rl_lines (buf @ [c]) (d # cs))) =
          norm_eol (per_line f (buf @ [c]) (d # cs)) @ T"
        by (simp add: T_def)
      have l: "rl_lines buf (c # d # cs) = rl_lines (buf @ [c]) (d # cs)" using nocrlf c by auto
      have p: "per_line f buf (c # d # cs) = per_line f (buf @ [c]) (d # cs)"
        using False by (subst per_line.simps(2)) simp
      show ?thesis unfolding l p t using ih by simp
    qed
  qed
qed

lemma norm_eol_per_line:
  assumes "line_fun f"
  shows "\<not> list_ex is_eol buf \<Longrightarrow> \<not> list_ex (\<lambda>c. is_eol c \<and> c \<noteq> NL) s \<Longrightarrow>
     norm_eol (per_line f buf s) = per_line f buf s"
proof (induction s arbitrary: buf)
  case Nil
  with assms have "\<not> list_ex is_eol (f buf)" unfolding line_fun_def by blast
  from norm_eol_free[OF this, of "[]"] show ?case by simp
next
  case (Cons c cs)
  show ?case
  proof (cases "is_eol c")
    case True
    with Cons.prems(2) have c: "c = NL" by auto
    from assms Cons.prems(1) have fb: "\<not> list_ex is_eol (f buf)" unfolding line_fun_def by blast
    have "norm_eol (per_line f [] cs) = per_line f [] cs"
      by (rule Cons.IH) (use Cons.prems(2) in simp_all)
    moreover have "norm_eol (c # per_line f [] cs) = NL # norm_eol (per_line f [] cs)"
      by (rule norm_eol_eol[OF True]) (simp add: c)
    moreover have "norm_eol (f buf @ c # per_line f [] cs) = f buf @ norm_eol (c # per_line f [] cs)"
      by (rule norm_eol_free[OF fb])
    ultimately show ?thesis using True c by simp
  next
    case False
    have "norm_eol (per_line f (buf @ [c]) cs) = per_line f (buf @ [c]) cs"
      by (rule Cons.IH) (use Cons.prems False in simp_all)
    then show ?thesis using False by simp
  qed
qed

lemma line_fun_conversions: "line_fun apply_conversions"
  using line_fun_fold[OF conversions_line_rules] by (simp add: apply_conversions_def[abs_def])


subsection \<open>Patterns that do not match in the output of a rule\<close>

lemma has_match_Some:
  "rx pw (c # cs) = Some m \<Longrightarrow> has_match rx pw (c # cs)"
  by simp

lemma has_match_None:
  "rx pw (c # cs) = None \<Longrightarrow> has_match rx pw (c # cs) = has_match rx (is_word c) cs"
  by simp

lemma quiet_Some:
  "rxk pw (c # cs) = Some (n, cap) \<Longrightarrow>
     quiet rxj rxk pw (c # cs) = quiet rxj rxk (is_word (last (c # take (n - 1) cs))) (drop (n - 1) cs)"
  by simp

lemma has_match_drop:
  "\<not> has_match rx pw (c # cs) \<Longrightarrow> \<not> has_match rx (is_word (last (c # take m cs))) (drop m cs)"
proof (induction m arbitrary: pw c cs)
  case 0 then show ?case by (simp split: option.splits)
next
  case (Suc m)
  show ?case
  proof (cases cs)
    case Nil then show ?thesis by simp
  next
    case (Cons d ds)
    from Suc.prems have "\<not> has_match rx (is_word c) (d # ds)"
      using Cons by (simp split: option.splits)
    from Suc.IH[OF this] show ?thesis using Cons by simp
  qed
qed

lemma quiet_self: "quiet rx rx pw s"
proof (induction "length s" arbitrary: s pw rule: less_induct)
  case less
  show ?case
  proof (cases s)
    case Nil then show ?thesis by simp
  next
    case (Cons c cs)
    show ?thesis
    proof (cases "rx pw (c # cs)")
      case None
      have "length cs < length s" using Cons by simp
      from less[OF this] None Cons show ?thesis by simp
    next
      case (Some m)
      obtain n cap where m: "m = (n, cap)" by (cases m)
      have "length (drop (n - 1) cs) < length s" using Cons by simp
      from less[OF this] show ?thesis
        unfolding Cons using quiet_Some[of rx pw c cs n cap rx] Some m by simp
    qed
  qed
qed

lemma quiet_no_match: "\<not> has_match rxj pw s \<Longrightarrow> quiet rxj rxk pw s"
proof (induction "length s" arbitrary: s pw rule: less_induct)
  case less
  show ?case
  proof (cases s)
    case Nil then show ?thesis by simp
  next
    case (Cons c cs)
    show ?thesis
    proof (cases "rxk pw (c # cs)")
      case None
      have "length cs < length s" using Cons by simp
      moreover have "\<not> has_match rxj (is_word c) cs" "rxj pw (c # cs) = None"
        using less.prems Cons by (simp_all split: option.splits)
      ultimately show ?thesis using less.hyps None Cons by simp
    next
      case (Some m)
      obtain n cap where m: "m = (n, cap)" by (cases m)
      have "length (drop (n - 1) cs) < length s" using Cons by simp
      moreover have "\<not> has_match rxj (is_word (last (c # take (n - 1) cs))) (drop (n - 1) cs)"
        using less.prems Cons by (simp only: has_match_drop not_False_eq_True)
      ultimately have "quiet rxj rxk (is_word (last (c # take (n - 1) cs))) (drop (n - 1) cs)"
        using less.hyps by blast
      then show ?thesis
        unfolding Cons using quiet_Some[of rxk pw c cs n cap rxj] Some m by simp
    qed
  qed
qed

lemma has_match_through:
  assumes "\<And>u pw'. u \<in> set (tails r) \<Longrightarrow> rx pw' (u @ x) = None" "r \<noteq> []"
  shows "has_match rx pw (r @ x) = has_match rx (is_word (last r)) x"
  using assms
proof (induction r arbitrary: pw)
  case Nil then show ?case by simp
next
  case (Cons c r)
  have n: "rx pw (c # r @ x) = None" using Cons.prems(1)[of "c # r" pw] by simp
  show ?case
  proof (cases r)
    case Nil
    then show ?thesis using n by simp
  next
    case (Cons d r')
    have "has_match rx (is_word c) (r @ x) = has_match rx (is_word (last r)) x"
      by (rule Cons.IH) (use Cons.prems Cons in auto)
    then show ?thesis using n Cons by simp
  qed
qed

lemma quiet_clean:
  assumes "emits rxk tpl r0" "inert rxj rxk tpl"
  shows "quiet rxj rxk pw s \<Longrightarrow> \<not> has_match rxj pw (js_replace rxk tpl pw s)"
proof (induction "length s" arbitrary: s pw rule: less_induct)
  case less
  show ?case
  proof (cases s)
    case Nil then show ?thesis by simp
  next
    case (Cons c cs)
    show ?thesis
    proof (cases "rxk pw (c # cs)")
      case None
      from less.prems Cons None have j: "rxj pw (c # cs) = None" and q: "quiet rxj rxk (is_word c) cs"
        by simp_all
      have "length cs < length s" using Cons by simp
      from less.hyps[OF this q] have "\<not> has_match rxj (is_word c) (js_replace rxk tpl (is_word c) cs)" .
      moreover from assms(2) None j have "rxj pw (c # js_replace rxk tpl (is_word c) cs) = None"
        unfolding inert_def by blast
      ultimately show ?thesis using None Cons by simp
    next
      case (Some m)
      obtain n cap where m: "m = (n, cap)" by (cases m)
      have sm: "rxk pw (c # cs) = Some (n, cap)" using Some m by simp
      let ?r = "expand tpl cap"
      let ?pw = "is_word (last (c # take (n - 1) cs))"
      let ?x = "js_replace rxk tpl ?pw (drop (n - 1) cs)"
      from assms(1) sm have n: "1 \<le> n" "n \<le> length (c # cs)"
        and r: "?r \<noteq> []" and w: "is_word (last ?r) = is_word (last (take n (c # cs)))"
        unfolding emits_def by (blast, blast, fastforce, blast)
      have tk: "take n (c # cs) = c # take (n - 1) cs" using n(1) by (cases n) simp_all
      have q: "quiet rxj rxk ?pw (drop (n - 1) cs)"
        using less.prems unfolding Cons quiet_Some[of rxk pw c cs n cap rxj, OF sm] .
      have "length (drop (n - 1) cs) < length s" using Cons by simp
      from less.hyps[OF this q] have x: "\<not> has_match rxj ?pw ?x" .
      have "has_match rxj pw (?r @ ?x) = has_match rxj (is_word (last ?r)) ?x"
      proof (rule has_match_through[OF _ r])
        fix u pw' assume "u \<in> set (tails ?r)"
        with assms(2) sm show "rxj pw' (u @ ?x) = None" unfolding inert_def by blast
      qed
      with x w tk have "\<not> has_match rxj pw (?r @ ?x)" by simp
      then show ?thesis unfolding Cons js_replace_Some[of rxk pw c cs n cap tpl, OF sm] .
    qed
  qed
qed

lemma self_clean:
  assumes "emits rx tpl r0" "inert rx rx tpl"
  shows "\<not> has_match rx pw (js_replace rx tpl pw s)"
  by (rule quiet_clean[OF assms quiet_self])

lemma stays_clean:
  assumes "emits rxk tpl r0" "inert rxj rxk tpl" "\<not> has_match rxj pw s"
  shows "\<not> has_match rxj pw (js_replace rxk tpl pw s)"
  by (rule quiet_clean[OF assms(1,2) quiet_no_match[OF assms(3)]])

lemma clash_not_prefix: "clash a b \<Longrightarrow> \<not> prefix a (b @ y) \<and> \<not> prefix b (a @ y)"
  by (induction a b rule: clash.induct) auto

lemma tails_append: "tails (a @ b) = map (\<lambda>u. u @ b) (tails a) @ tails b"
  by (induction a) auto

lemma tails_digits: "list_all is_digit d \<Longrightarrow> u \<in> set (tails d) \<Longrightarrow> \<exists>y ys. u = y # ys \<and> is_digit y"
  by (induction d) auto

lemma tails_tails: "u \<in> set (tails q) \<Longrightarrow> set (tails u) \<subseteq> set (tails q)"
  by (induction q) auto

lemma prefix_reflect:
  assumes "emits rxk tpl r0"
  shows "list_all (\<lambda>u. clash u r0) (tails q) \<Longrightarrow> prefix q (js_replace rxk tpl pw s) \<Longrightarrow> prefix q s"
proof (induction q arbitrary: s pw)
  case Nil then show ?case by simp
next
  case (Cons x q)
  from Cons.prems(1) have cl: "clash (x # q) r0" and rest: "list_all (\<lambda>u. clash u r0) (tails q)"
    by simp_all
  show ?case
  proof (cases s)
    case Nil
    with Cons.prems(2) show ?thesis by simp
  next
    case (Cons c cs)
    show ?thesis
    proof (cases "rxk pw (c # cs)")
      case None
      with Cons.prems(2) \<open>s = c # cs\<close> have "x = c" "prefix q (js_replace rxk tpl (is_word c) cs)"
        by simp_all
      with Cons.IH[OF rest] show ?thesis using \<open>s = c # cs\<close> by simp
    next
      case (Some m)
      obtain n cap where m: "m = (n, cap)" by (cases m)
      from assms Some m obtain d where d: "expand tpl cap = r0 @ d"
        unfolding emits_def by blast
      have "\<not> prefix (x # q) (r0 @ (d @ y))" for y
        using clash_not_prefix[OF cl] by blast
      with Cons.prems(2) show ?thesis
        unfolding \<open>s = c # cs\<close> js_replace_Some[of rxk pw c cs n cap tpl, OF Some[unfolded m]] d
        by simp
    qed
  qed
qed

lemma no_prefix_in_replacement:
  assumes "emits rxk tpl r0" "apart p r0" "rxk pw s = Some (n, cap)" "u \<in> set (tails (expand tpl cap))"
  shows "\<not> prefix p (u @ x)"
proof -
  from assms(1,3) obtain d where d: "expand tpl cap = r0 @ d" "list_all is_digit d"
    unfolding emits_def by blast
  from assms(2) obtain x0 p' where p: "p = x0 # p'" "\<not> is_digit x0"
    unfolding apart_def by (cases p) auto
  from assms(4) d(1) consider v where "v \<in> set (tails r0)" "u = v @ d" | "u \<in> set (tails d)"
    by (auto simp: tails_append)
  then show ?thesis
  proof cases
    case 1
    with assms(2) have "clash p v" unfolding apart_def by (auto simp: list_all_iff)
    from clash_not_prefix[OF this, of "d @ x"] 1 show ?thesis by simp
  next
    case 2
    from tails_digits[OF d(2) this] p show ?thesis by auto
  qed
qed

lemma inert_lit:
  assumes "emits rxk tpl r0" "apart p r0"
  shows "inert (rx_lit p) rxk tpl"
  unfolding inert_def
proof (intro conjI allI impI)
  fix pw s n cap u pw' x
  assume "rxk pw s = Some (n, cap) \<and> u \<in> set (tails (expand tpl cap))"
  then have "\<not> prefix p (u @ x)" using no_prefix_in_replacement[OF assms] by blast
  then show "rx_lit p pw' (u @ x) = None" by (simp add: rx_lit_def)
next
  fix pw c cs
  assume a: "rxk pw (c # cs) = None \<and> rx_lit p pw (c # cs) = None"
  from assms(2) obtain x0 p' where p: "p = x0 # p'" and t: "list_all (\<lambda>u. clash u r0) (tails p')"
    unfolding apart_def by (cases p) auto
  have "\<not> prefix p (c # js_replace rxk tpl (is_word c) cs)"
  proof
    assume "prefix p (c # js_replace rxk tpl (is_word c) cs)"
    then have "x0 = c" "prefix p' (js_replace rxk tpl (is_word c) cs)" using p by simp_all
    with prefix_reflect[OF assms(1) t] have "prefix p (c # cs)" using p by simp
    with a show False by (simp add: rx_lit_def)
  qed
  then show "rx_lit p pw (c # js_replace rxk tpl (is_word c) cs) = None"
    by (simp add: rx_lit_def)
qed

lemma inert_blit:
  assumes "emits rxk tpl r0" "apart p r0"
  shows "inert (rx_blit p) rxk tpl"
  unfolding inert_def
proof (intro conjI allI impI)
  fix pw s n cap u pw' x
  assume "rxk pw s = Some (n, cap) \<and> u \<in> set (tails (expand tpl cap))"
  then have "\<not> prefix p (u @ x)" using no_prefix_in_replacement[OF assms] by blast
  then show "rx_blit p pw' (u @ x) = None" by (simp add: rx_blit_def)
next
  fix pw c cs
  assume a: "rxk pw (c # cs) = None \<and> rx_blit p pw (c # cs) = None"
  from assms(2) obtain x0 p' where p: "p = x0 # p'" and t: "list_all (\<lambda>u. clash u r0) (tails p')"
    unfolding apart_def by (cases p) auto
  have b: "boundary pw (c # y) = boundary pw (c # cs)" for y by (simp add: boundary_def)
  have "\<not> (boundary pw (c # cs) \<and> prefix p (c # js_replace rxk tpl (is_word c) cs))"
  proof
    assume h: "boundary pw (c # cs) \<and> prefix p (c # js_replace rxk tpl (is_word c) cs)"
    then have "x0 = c" "prefix p' (js_replace rxk tpl (is_word c) cs)" using p by simp_all
    with prefix_reflect[OF assms(1) t] have "prefix p (c # cs)" using p by simp
    with a h show False by (simp add: rx_blit_def)
  qed
  then show "rx_blit p pw (c # js_replace rxk tpl (is_word c) cs) = None"
    using b[of "js_replace rxk tpl (is_word c) cs"] by (simp add: rx_blit_def)
qed

lemma prefix_take_last: "prefix p s \<Longrightarrow> take (length p) s = p"
  by (auto simp: prefix_def)

lemma emits_lit:
  assumes "p \<noteq> []" "r \<noteq> []" "is_word (last r) = is_word (last p)"
  shows "emits (rx_lit p) [Lit r] r"
  unfolding emits_def using assms
  by (auto simp: rx_lit_iff prefix_take_last prefix_length_le Suc_le_eq)

lemma emits_blit:
  assumes "p \<noteq> []" "r \<noteq> []" "is_word (last r) = is_word (last p)"
  shows "emits (rx_blit p) [Lit r] r"
  unfolding emits_def using assms
  by (auto simp: rx_blit_iff prefix_take_last prefix_length_le Suc_le_eq)

lemma emits_top: "emits rx_top [Lit (js ''LIMIT ''), Group1] (js ''LIMIT '')"
  unfolding emits_def
proof (intro conjI allI impI)
  show "js ''LIMIT '' \<noteq> []" by (simp add: js_def)
next
  fix pw s n cap assume a: "rx_top pw s = Some (n, cap)"
  then obtain c1 c2 c3 ws r2 where s: "s = (c1 # c2 # c3 # ws @ cap) @ r2"
    and c: "cap \<noteq> []" "list_all is_digit cap" "n = 3 + length ws + length cap"
    by (auto simp: rx_top_iff)
  have n: "n = length (c1 # c2 # c3 # ws @ cap)" using c by simp
  show "1 \<le> n" using c by simp
  show "n \<le> length s" using s c by simp
  show "\<exists>d. expand [Lit (js ''LIMIT ''), Group1] cap = js ''LIMIT '' @ d \<and> list_all is_digit d"
    using c by simp
  have "take n s = c1 # c2 # c3 # ws @ cap" unfolding n s by simp
  then show "is_word (last (expand [Lit (js ''LIMIT ''), Group1] cap)) = is_word (last (take n s))"
    using c(1) by simp
qed

lemma copied_prefix:
  assumes "emits rxk tpl r0" "r0 = h # r1"
  shows "h \<notin> set q \<Longrightarrow> prefix q (js_replace rxk tpl pw s) \<Longrightarrow>
     \<exists>s'. s = q @ s' \<and> js_replace rxk tpl pw s = q @ js_replace rxk tpl (pw_after pw q) s'"
proof (induction q arbitrary: s pw)
  case Nil then show ?case by (simp add: pw_after_def)
next
  case (Cons x q)
  show ?case
  proof (cases s)
    case Nil
    with Cons.prems(2) show ?thesis by simp
  next
    case (Cons c cs)
    show ?thesis
    proof (cases "rxk pw (c # cs)")
      case None
      with Cons.prems(2) \<open>s = c # cs\<close> have x: "x = c" and "prefix q (js_replace rxk tpl (is_word c) cs)"
        by simp_all
      with Cons.IH[of "is_word c" cs] Cons.prems(1) obtain s' where
        "cs = q @ s'" "js_replace rxk tpl (is_word c) cs = q @ js_replace rxk tpl (pw_after (is_word c) q) s'"
        by auto
      moreover have "pw_after (is_word c) q = pw_after pw (x # q)" using x by (simp add: pw_after_def)
      ultimately show ?thesis using None x \<open>s = c # cs\<close> by simp
    next
      case (Some m)
      obtain n cap where m: "m = (n, cap)" by (cases m)
      from assms Some m obtain d where d: "expand tpl cap = (h # r1) @ d"
        unfolding emits_def by blast
      from Cons.prems(2) have "x = h"
        unfolding \<open>s = c # cs\<close> js_replace_Some[of rxk pw c cs n cap tpl, OF Some[unfolded m]] d
        by simp
      with Cons.prems(1) show ?thesis by simp
    qed
  qed
qed

lemma rx_top_head:
  assumes "rx_top pw s = Some m"
  obtains c1 c2 r where "s = c1 # c2 # r" "ci 84 c1" "ci 79 c2"
  using assms by (cases m) (auto simp: rx_top_iff)

lemma tails_LIMIT:
  "tails (js ''LIMIT '') = [js ''LIMIT '', js ''IMIT '', js ''MIT '', js ''IT '', js ''T '', js '' '']"
  by (simp add: js_def)

lemma inert_top: "inert rx_top rx_top [Lit (js ''LIMIT ''), Group1]"
  unfolding inert_def
proof (intro conjI allI impI)
  fix pw s n cap u pw' x
  assume a: "rx_top pw s = Some (n, cap) \<and> u \<in> set (tails (expand [Lit (js ''LIMIT ''), Group1] cap))"
  then have d: "list_all is_digit cap" by (auto simp: rx_top_iff)
  from a consider v where "v \<in> set (tails (js ''LIMIT ''))" "u = v @ cap" | "u \<in> set (tails cap)"
    by (auto simp: tails_append)
  then show "rx_top pw' (u @ x) = None"
  proof cases
    case 1
    show ?thesis
    proof (cases "rx_top pw' (u @ x)")
      case (Some m)
      from rx_top_head[OF Some] obtain c1 c2 r where "u @ x = c1 # c2 # r" "ci 84 c1" "ci 79 c2" .
      with 1 show ?thesis unfolding tails_LIMIT by (auto simp: js_def ci_def)
    qed simp
  next
    case 2
    from tails_digits[OF d 2] obtain y ys where y: "u = y # ys" "is_digit y" by blast
    show ?thesis
    proof (cases "rx_top pw' (u @ x)")
      case (Some m)
      from rx_top_head[OF Some] obtain c1 c2 r where "u @ x = c1 # c2 # r" "ci 84 c1" .
      with y show ?thesis by (auto simp: ci_def is_digit_def)
    qed simp
  qed
next
  fix pw c cs
  let ?tpl = "[Lit (js ''LIMIT ''), Group1]"
  assume a: "rx_top pw (c # cs) = None \<and> rx_top pw (c # cs) = None"
  show "rx_top pw (c # js_replace rx_top ?tpl (is_word c) cs) = None"
  proof (cases "rx_top pw (c # js_replace rx_top ?tpl (is_word c) cs)")
    case (Some m)
    obtain n cap where m: "m = (n, cap)" by (cases m)
    from Some[unfolded m rx_top_iff] obtain c1 c2 c3 ws r2 where
      o: "c # js_replace rx_top ?tpl (is_word c) cs = c1 # c2 # c3 # ws @ cap @ r2"
      and k: "\<not> pw" "ci 84 c1" "ci 79 c2" "ci 80 c3" "ws \<noteq> []" "list_all is_space ws"
        "cap \<noteq> []" "list_all is_digit cap"
      and st: "stops is_word r2"
      by blast
    let ?q = "c2 # c3 # ws @ cap"
    from o have c1: "c1 = c" and o': "js_replace rx_top ?tpl (is_word c) cs = ?q @ r2" by auto
    have h: "76 \<notin> set ?q"
      using k by (auto simp: ci_def list_all_iff class_defs)
    have "prefix ?q (js_replace rx_top ?tpl (is_word c) cs)" unfolding o' by simp
    from copied_prefix[OF emits_top _ h this] obtain s' where
      s': "cs = ?q @ s'"
      "js_replace rx_top ?tpl (is_word c) cs = ?q @ js_replace rx_top ?tpl (pw_after (is_word c) ?q) s'"
      by (auto simp: js_def)
    let ?pw = "pw_after (is_word c) ?q"
    from s'(2) o' have r2: "r2 = js_replace rx_top ?tpl ?pw s'" by simp
    have "stops is_word s'"
    proof (cases s')
      case Nil then show ?thesis by simp
    next
      case (Cons y ys)
      show ?thesis
      proof (cases "rx_top ?pw (y # ys)")
        case None
        then have "r2 = y # js_replace rx_top ?tpl (is_word y) ys" unfolding r2 Cons by simp
        with st show ?thesis using Cons by simp
      next
        case (Some m')
        obtain n' cap' where m': "m' = (n', cap')" by (cases m')
        have "\<exists>z. r2 = 76 # z"
          unfolding r2 Cons js_replace_Some[of rx_top ?pw y ys n' cap' ?tpl, OF Some[unfolded m']]
          by (simp add: js_def)
        with st show ?thesis by (auto simp: is_word_def)
      qed
    qed
    from rx_top_match[OF k(1-8) this] have "rx_top pw (c # cs) = Some (3 + length ws + length cap, cap)"
      unfolding s'(1) c1 by simp
    with a show ?thesis by simp
  qed simp
qed

lemma dbo_is_bracket: "has_match rx_dbo pw s \<Longrightarrow> has_match rx_bracket pw' s"
proof (induction s arbitrary: pw pw')
  case Nil then show ?case by simp
next
  case (Cons c cs)
  show ?case
  proof (cases "rx_dbo pw (c # cs)")
    case None
    with Cons.prems have "has_match rx_dbo (is_word c) cs" by simp
    from Cons.IH[OF this] show ?thesis by (simp split: option.splits)
  next
    case (Some m)
    then obtain cap rest where "c # cs = js ''[dbo].['' @ cap @ 93 # rest"
      by (cases m) (auto simp: rx_dbo_iff)
    then have "c # cs = 91 # js ''dbo'' @ 93 # (js ''.['' @ cap @ 93 # rest)"
      by (simp add: js_def)
    moreover have "rx_bracket pw' (91 # js ''dbo'' @ 93 # (js ''.['' @ cap @ 93 # rest)) = Some (length (js ''dbo'') + 2, js ''dbo'')"
      by (rule rx_bracket_match) (simp_all add: js_def)
    ultimately show ?thesis by (simp del: append.simps)
  qed
qed

lemma emits_rules:
  "emits (rx_lit (js ''GETDATE()'')) [Lit (js ''NOW()'')] (js ''NOW()'')"
  "emits (rx_lit (js ''GETUTCDATE()'')) [Lit (js ''UTC_TIMESTAMP()'')] (js ''UTC_TIMESTAMP()'')"
  "emits (rx_lit (js ''NEWID()'')) [Lit (js ''UUID()'')] (js ''UUID()'')"
  "emits (rx_blit (js ''LEN('')) [Lit (js ''LENGTH('')] (js ''LENGTH('')"
  "emits (rx_blit (js ''ISNULL('')) [Lit (js ''IFNULL('')] (js ''IFNULL('')"
  by (rule emits_lit emits_blit; simp add: js_def class_defs)+

lemma apart_rules:
  "apart (js ''GETDATE()'') (js ''NOW()'')"
  "apart (js ''GETDATE()'') (js ''UTC_TIMESTAMP()'')"
  "apart (js ''GETDATE()'') (js ''UUID()'')"
  "apart (js ''GETDATE()'') (js ''LENGTH('')"
  "apart (js ''GETDATE()'') (js ''IFNULL('')"
  "apart (js ''GETDATE()'') (js ''LIMIT '')"
  "apart (js ''GETUTCDATE()'') (js ''UTC_TIMESTAMP()'')"
  "apart (js ''GETUTCDATE()'') (js ''UUID()'')"
  "apart (js ''GETUTCDATE()'') (js ''LENGTH('')"
  "apart (js ''GETUTCDATE()'') (js ''IFNULL('')"
  "apart (js ''GETUTCDATE()'') (js ''LIMIT '')"
  "apart (js ''NEWID()'') (js ''UUID()'')"
  "apart (js ''NEWID()'') (js ''LENGTH('')"
  "apart (js ''NEWID()'') (js ''IFNULL('')"
  "apart (js ''NEWID()'') (js ''LIMIT '')"
  "apart (js ''LEN('') (js ''LENGTH('')"
  "apart (js ''LEN('') (js ''IFNULL('')"
  "apart (js ''LEN('') (js ''LIMIT '')"
  "apart (js ''ISNULL('') (js ''IFNULL('')"
  "apart (js ''ISNULL('') (js ''LIMIT '')"
  by (simp_all add: apart_def js_def is_digit_def)

lemma inert_rules:
  "inert (rx_lit (js ''GETDATE()'')) (rx_lit (js ''GETDATE()'')) [Lit (js ''NOW()'')]"
  "inert (rx_lit (js ''GETDATE()'')) (rx_lit (js ''GETUTCDATE()'')) [Lit (js ''UTC_TIMESTAMP()'')]"
  "inert (rx_lit (js ''GETDATE()'')) (rx_lit (js ''NEWID()'')) [Lit (js ''UUID()'')]"
  "inert (rx_lit (js ''GETDATE()'')) (rx_blit (js ''LEN('')) [Lit (js ''LENGTH('')]"
  "inert (rx_lit (js ''GETDATE()'')) (rx_blit (js ''ISNULL('')) [Lit (js ''IFNULL('')]"
  "inert (rx_lit (js ''GETDATE()'')) rx_top [Lit (js ''LIMIT ''), Group1]"
  "inert (rx_lit (js ''GETUTCDATE()'')) (rx_lit (js ''GETUTCDATE()'')) [Lit (js ''UTC_TIMESTAMP()'')]"
  "inert (rx_lit (js ''GETUTCDATE()'')) (rx_lit (js ''NEWID()'')) [Lit (js ''UUID()'')]"
  "inert (rx_lit (js ''GETUTCDATE()'')) (rx_blit (js ''LEN('')) [Lit (js ''LENGTH('')]"
  "inert (rx_lit (js ''GETUTCDATE()'')) (rx_blit (js ''ISNULL('')) [Lit (js ''IFNULL('')]"
  "inert (rx_lit (js ''GETUTCDATE()'')) rx_top [Lit (js ''LIMIT ''), Group1]"
  "inert (rx_lit (js ''NEWID()'')) (rx_lit (js ''NEWID()'')) [Lit (js ''UUID()'')]"
  "inert (rx_lit (js ''NEWID()'')) (rx_blit (js ''LEN('')) [Lit (js ''LENGTH('')]"
  "inert (rx_lit (js ''NEWID()'')) (rx_blit (js ''ISNULL('')) [Lit (js ''IFNULL('')]"
  "inert (rx_lit (js ''NEWID()'')) rx_top [Lit (js ''LIMIT ''), Group1]"
  "inert (rx_blit (js ''LEN('')) (rx_blit (js ''LEN('')) [Lit (js ''LENGTH('')]"
  "inert (rx_blit (js ''LEN('')) (rx_blit (js ''ISNULL('')) [Lit (js ''IFNULL('')]"
  "inert (rx_blit (js ''LEN('')) rx_top [Lit (js ''LIMIT ''), Group1]"
  "inert (rx_blit (js ''ISNULL('')) (rx_blit (js ''ISNULL('')) [Lit (js ''IFNULL('')]"
  "inert (rx_blit (js ''ISNULL('')) rx_top [Lit (js ''LIMIT ''), Group1]"
  by (rule inert_lit inert_blit, rule emits_rules emits_top, rule apart_rules)+

lemma later_rules_clean:
  assumes "out = js_replace rx_top [Lit (js ''LIMIT ''), Group1] False (js_replace (rx_blit (js ''ISNULL('')) [Lit (js ''IFNULL('')] False (js_replace (rx_blit (js ''LEN('')) [Lit (js ''LENGTH('')] False (js_replace (rx_lit (js ''NEWID()'')) [Lit (js ''UUID()'')] False (js_replace (rx_lit (js ''GETUTCDATE()'')) [Lit (js ''UTC_TIMESTAMP()'')] False (js_replace (rx_lit (js ''GETDATE()'')) [Lit (js ''NOW()'')] False u)))))"
  shows "\<not> has_match (rx_lit (js ''GETDATE()'')) False out"
    and "\<not> has_match (rx_lit (js ''GETUTCDATE()'')) False out"
    and "\<not> has_match (rx_lit (js ''NEWID()'')) False out"
    and "\<not> has_match (rx_blit (js ''LEN('')) False out"
    and "\<not> has_match (rx_blit (js ''ISNULL('')) False out"
    and "\<not> has_match rx_top False out"
proof -
  define t3 where "t3 = js_replace (rx_lit (js ''GETDATE()'')) [Lit (js ''NOW()'')] False u"
  define t4 where "t4 = js_replace (rx_lit (js ''GETUTCDATE()'')) [Lit (js ''UTC_TIMESTAMP()'')] False t3"
  define t5 where "t5 = js_replace (rx_lit (js ''NEWID()'')) [Lit (js ''UUID()'')] False t4"
  define t6 where "t6 = js_replace (rx_blit (js ''LEN('')) [Lit (js ''LENGTH('')] False t5"
  define t7 where "t7 = js_replace (rx_blit (js ''ISNULL('')) [Lit (js ''IFNULL('')] False t6"
  define t8 where "t8 = js_replace rx_top [Lit (js ''LIMIT ''), Group1] False t7"
  have o: "out = t8" unfolding assms t8_def t7_def t6_def t5_def t4_def t3_def ..
  have c3_3: "\<not> has_match (rx_lit (js ''GETDATE()'')) False t3"
    unfolding t3_def by (rule self_clean[OF emits_rules(1) inert_rules(1)])
  have c3_4: "\<not> has_match (rx_lit (js ''GETDATE()'')) False t4"
    unfolding t4_def by (rule stays_clean[OF emits_rules(2) inert_rules(2) c3_3])
  have c3_5: "\<not> has_match (rx_lit (js ''GETDATE()'')) False t5"
    unfolding t5_def by (rule stays_clean[OF emits_rules(3) inert_rules(3) c3_4])
  have c3_6: "\<not> has_match (rx_lit (js ''GETDATE()'')) False t6"
    unfolding t6_def by (rule stays_clean[OF emits_rules(4) inert_rules(4) c3_5])
  have c3_7: "\<not> has_match (rx_lit (js ''GETDATE()'')) False t7"
    unfolding t7_def by (rule stays_clean[OF emits_rules(5) inert_rules(5) c3_6])
  have c3_8: "\<not> has_match (rx_lit (js ''GETDATE()'')) False t8"
    unfolding t8_def by (rule stays_clean[OF emits_top inert_rules(6) c3_7])
  have c4_4: "\<not> has_match (rx_lit (js ''GETUTCDATE()'')) False t4"
    unfolding t4_def by (rule self_clean[OF emits_rules(2) inert_rules(7)])
  have c4_5: "\<not> has_match (rx_lit (js ''GETUTCDATE()'')) False t5"
    unfolding t5_def by (rule stays_clean[OF emits_rules(3) inert_rules(8) c4_4])
  have c4_6: "\<not> has_match (rx_lit (js ''GETUTCDATE()'')) False t6"
    unfolding t6_def by (rule stays_clean[OF emits_rules(4) inert_rules(9) c4_5])
  have c4_7: "\<not> has_match (rx_lit (js ''GETUTCDATE()'')) False t7"
    unfolding t7_def by (rule stays_clean[OF emits_rules(5) inert_rules(10) c4_6])
  have c4_8: "\<not> has_match (rx_lit (js ''GETUTCDATE()'')) False t8"
    unfolding t8_def by (rule stays_clean[OF emits_top inert_rules(11) c4_7])
  have c5_5: "\<not> has_match (rx_lit (js ''NEWID()'')) False t5"
    unfolding t5_def by (rule self_clean[OF emits_rules(3) inert_rules(12)])
  have c5_6: "\<not> has_match (rx_lit (js ''NEWID()'')) False t6"
    unfolding t6_def by (rule stays_clean[OF emits_rules(4) inert_rules(13) c5_5])
  have c5_7: "\<not> has_match (rx_lit (js ''NEWID()'')) False t7"
    unfolding t7_def by (rule stays_clean[OF emits_rules(5) inert_rules(14) c5_6])
  have c5_8: "\<not> has_match (rx_lit (js ''NEWID()'')) False t8"
    unfolding t8_def by (rule stays_clean[OF emits_top inert_rules(15) c5_7])
  have c6_6: "\<not> has_match (rx_blit (js ''LEN('')) False t6"
    unfolding t6_def by (rule self_clean[OF emits_rules(4) inert_rules(16)])
  have c6_7: "\<not> has_match (rx_blit (js ''LEN('')) False t7"
    unfolding t7_def by (rule stays_clean[OF emits_rules(5) inert_rules(17) c6_6])
  have c6_8: "\<not> has_match (rx_blit (js ''LEN('')) False t8"
    unfolding t8_def by (rule stays_clean[OF emits_top inert_rules(18) c6_7])
  have c7_7: "\<not> has_match (rx_blit (js ''ISNULL('')) False t7"
    unfolding t7_def by (rule self_clean[OF emits_rules(5) inert_rules(19)])
  have c7_8: "\<not> has_match (rx_blit (js ''ISNULL('')) False t8"
    unfolding t8_def by (rule stays_clean[OF emits_top inert_rules(20) c7_7])
  have c8_8: "\<not> has_match rx_top False t8"
    unfolding t8_def by (rule self_clean[OF emits_top inert_top])
  show "\<not> has_match (rx_lit (js ''GETDATE()'')) False out" unfolding o by (rule c3_8)
  show "\<not> has_match (rx_lit (js ''GETUTCDATE()'')) False out" unfolding o by (rule c4_8)
  show "\<not> has_match (rx_lit (js ''NEWID()'')) False out" unfolding o by (rule c5_8)
  show "\<not> has_match (rx_blit (js ''LEN('')) False out" unfolding o by (rule c6_8)
  show "\<not> has_match (rx_blit (js ''ISNULL('')) False out" unfolding o by (rule c7_8)
  show "\<not> has_match rx_top False out" unfolding o by (rule c8_8)
qed

lemma second_pass_keeps:
  assumes "\<not> has_match rx_bracket False (apply_conversions text)"
  shows "apply_conversions (apply_conversions text) = apply_conversions text"
proof -
  note c = later_rules_clean[OF apply_conversions_unfold[of "text"]]
  have d: "\<not> has_match rx_dbo False (apply_conversions text)"
    using assms dbo_is_bracket by blast
  show ?thesis
    by (subst apply_conversions_unfold) (simp add: js_replace_id assms d c)
qed

subsection \<open>What a second pass takes off\<close>

lemma brackets_append [simp]: "brackets (a @ b) = brackets a + brackets b"
  by (simp add: brackets_def)

lemma brackets_Cons: "brackets (c # cs) = (if c = 91 then 1 else 0) + brackets cs"
  by (simp add: brackets_def)

lemma brackets_split:
  assumes "1 \<le> n"
  shows "brackets (c # cs) = brackets (take n (c # cs)) + brackets (drop (n - 1) cs)"
proof -
  have "c # cs = take n (c # cs) @ drop n (c # cs)" by simp
  moreover have "drop n (c # cs) = drop (n - 1) cs" using assms by (cases n) simp_all
  ultimately show ?thesis by (metis brackets_append)
qed

lemma sheds_brackets:
  assumes "sheds rx tpl"
  shows "brackets (js_replace rx tpl pw s) \<le> brackets s
     \<and> (has_match rx pw s \<longrightarrow> brackets (js_replace rx tpl pw s) < brackets s)"
proof (induction "length s" arbitrary: s pw rule: less_induct)
  case less
  show ?case
  proof (cases s)
    case Nil then show ?thesis by simp
  next
    case (Cons c cs)
    show ?thesis
    proof (cases "rx pw (c # cs)")
      case None
      have "length cs < length s" using Cons by simp
      from less[OF this, of "is_word c"] None Cons show ?thesis by (simp add: brackets_Cons)
    next
      case (Some m)
      obtain n cap where m: "m = (n, cap)" by (cases m)
      have sm: "rx pw (c # cs) = Some (n, cap)" using Some m by simp
      from assms sm have n: "1 \<le> n" and l: "brackets (expand tpl cap) < brackets (take n (c # cs))"
        unfolding sheds_def by blast+
      have "length (drop (n - 1) cs) < length s" using Cons by simp
      from less[OF this] have "brackets (js_replace rx tpl (is_word (last (c # take (n - 1) cs))) (drop (n - 1) cs))
          \<le> brackets (drop (n - 1) cs)" by blast
      with l have "brackets (js_replace rx tpl pw (c # cs)) < brackets (c # cs)"
        unfolding js_replace_Some[of rx pw c cs n cap tpl, OF sm] brackets_split[OF n, of c cs]
        by simp
      then show ?thesis using Cons by simp
    qed
  qed
qed

lemma holds_brackets:
  assumes "holds rx tpl"
  shows "brackets (js_replace rx tpl pw s) = brackets s"
proof (induction "length s" arbitrary: s pw rule: less_induct)
  case less
  show ?case
  proof (cases s)
    case Nil then show ?thesis by simp
  next
    case (Cons c cs)
    show ?thesis
    proof (cases "rx pw (c # cs)")
      case None
      have "length cs < length s" using Cons by simp
      from less[OF this, of "is_word c"] None Cons show ?thesis by (simp add: brackets_Cons)
    next
      case (Some m)
      obtain n cap where m: "m = (n, cap)" by (cases m)
      have sm: "rx pw (c # cs) = Some (n, cap)" using Some m by simp
      from assms sm have n: "1 \<le> n" and l: "brackets (expand tpl cap) = brackets (take n (c # cs))"
        unfolding holds_def by blast+
      have "length (drop (n - 1) cs) < length s" using Cons by simp
      from less[OF this] have "brackets (js_replace rx tpl (is_word (last (c # take (n - 1) cs))) (drop (n - 1) cs))
          = brackets (drop (n - 1) cs)" by blast
      with l have "brackets (js_replace rx tpl pw (c # cs)) = brackets (c # cs)"
        unfolding js_replace_Some[of rx pw c cs n cap tpl, OF sm] brackets_split[OF n, of c cs]
        by simp
      then show ?thesis using Cons by simp
    qed
  qed
qed

lemma brackets_none: "91 \<notin> set s \<Longrightarrow> brackets s = 0"
  by (simp add: brackets_def)

lemma sheds_dbo: "sheds rx_dbo [Group1]"
  unfolding sheds_def
proof (intro allI impI)
  fix pw s n cap assume "rx_dbo pw s = Some (n, cap)"
  then obtain rest where s: "s = (js ''[dbo].['' @ cap @ [93]) @ rest"
    and c: "list_all is_word cap" "n = length cap + 8"
    by (auto simp: rx_dbo_iff)
  have n: "n = length (js ''[dbo].['' @ cap @ [93])" using c by (simp add: js_def)
  have "take n s = js ''[dbo].['' @ cap @ [93]" unfolding n s by simp
  moreover have "brackets cap = 0" using c(1) by (simp add: brackets_none word_text)
  ultimately show "1 \<le> n \<and> n \<le> length s \<and> brackets (expand [Group1] cap) < brackets (take n s)"
    using c(2) s by (simp add: js_def brackets_Cons)
qed

lemma sheds_bracket: "sheds rx_bracket [Group1]"
  unfolding sheds_def
proof (intro allI impI)
  fix pw s n cap assume "rx_bracket pw s = Some (n, cap)"
  then obtain rest where s: "s = (91 # cap @ [93]) @ rest" and c: "n = length cap + 2"
    by (auto simp: rx_bracket_iff)
  have n: "n = length (91 # cap @ [93])" using c by simp
  have "take n s = 91 # cap @ [93]" unfolding n s by simp
  then show "1 \<le> n \<and> n \<le> length s \<and> brackets (expand [Group1] cap) < brackets (take n s)"
    using c s by (simp add: brackets_Cons)
qed

lemma holds_lit: "p \<noteq> [] \<Longrightarrow> 91 \<notin> set p \<Longrightarrow> 91 \<notin> set r \<Longrightarrow> holds (rx_lit p) [Lit r]"
  unfolding holds_def
  by (auto simp: rx_lit_iff prefix_take_last prefix_length_le Suc_le_eq brackets_none)

lemma holds_blit: "p \<noteq> [] \<Longrightarrow> 91 \<notin> set p \<Longrightarrow> 91 \<notin> set r \<Longrightarrow> holds (rx_blit p) [Lit r]"
  unfolding holds_def
  by (auto simp: rx_blit_iff prefix_take_last prefix_length_le Suc_le_eq brackets_none)

lemma holds_top: "holds rx_top [Lit (js ''LIMIT ''), Group1]"
  unfolding holds_def
proof (intro allI impI)
  fix pw s n cap assume "rx_top pw s = Some (n, cap)"
  then obtain c1 c2 c3 ws r2 where s: "s = (c1 # c2 # c3 # ws @ cap) @ r2"
    and c: "ci 84 c1" "ci 79 c2" "ci 80 c3" "list_all is_space ws" "list_all is_digit cap"
      "n = 3 + length ws + length cap"
    by (auto simp: rx_top_iff)
  have n: "n = length (c1 # c2 # c3 # ws @ cap)" using c by simp
  have t: "take n s = c1 # c2 # c3 # ws @ cap" unfolding n s by simp
  have a: "91 \<notin> set (c1 # c2 # c3 # ws @ cap)" and b: "91 \<notin> set (js ''LIMIT '' @ cap)"
    using c by (auto simp: ci_def list_all_iff class_defs js_def)
  have e: "expand [Lit (js ''LIMIT ''), Group1] cap = js ''LIMIT '' @ cap" by simp
  have "brackets (take n s) = 0" "brackets (expand [Lit (js ''LIMIT ''), Group1] cap) = 0"
    unfolding t e by (rule brackets_none[OF a], rule brackets_none[OF b])
  then show "1 \<le> n \<and> n \<le> length s \<and> brackets (expand [Lit (js ''LIMIT ''), Group1] cap) = brackets (take n s)"
    using c s by simp
qed

lemma second_pass_changes:
  assumes "has_match rx_bracket False out"
  shows "apply_conversions out \<noteq> out"
proof -
  let ?t1 = "js_replace rx_dbo [Group1] False out"
  let ?t2 = "js_replace rx_bracket [Group1] False ?t1"
  have "brackets ?t2 < brackets out"
  proof (cases "has_match rx_bracket False ?t1")
    case True
    then have "brackets ?t2 < brackets ?t1" using sheds_brackets[OF sheds_bracket] by blast
    moreover have "brackets ?t1 \<le> brackets out" using sheds_brackets[OF sheds_dbo] by blast
    ultimately show ?thesis by simp
  next
    case False
    with assms have "?t1 \<noteq> out" by auto
    then have "has_match rx_dbo False out" using js_replace_id by blast
    then have "brackets ?t1 < brackets out" using sheds_brackets[OF sheds_dbo] by blast
    moreover have "brackets ?t2 \<le> brackets ?t1" using sheds_brackets[OF sheds_bracket] by blast
    ultimately show ?thesis by simp
  qed
  moreover have "brackets (apply_conversions out) = brackets ?t2"
  proof -
    have h: "holds (rx_lit (js ''GETDATE()'')) [Lit (js ''NOW()'')]"
      "holds (rx_lit (js ''GETUTCDATE()'')) [Lit (js ''UTC_TIMESTAMP()'')]"
      "holds (rx_lit (js ''NEWID()'')) [Lit (js ''UUID()'')]"
      "holds (rx_blit (js ''LEN('')) [Lit (js ''LENGTH('')]"
      "holds (rx_blit (js ''ISNULL('')) [Lit (js ''IFNULL('')]"
      by (rule holds_lit holds_blit; simp add: js_def)+
    show ?thesis
      unfolding apply_conversions_unfold
      by (simp only: holds_brackets[OF holds_top] holds_brackets[OF h(1)] holds_brackets[OF h(2)]
          holds_brackets[OF h(3)] holds_brackets[OF h(4)] holds_brackets[OF h(5)])
  qed
  ultimately show ?thesis by auto
qed

subsection \<open>No pattern of the table matches the empty text\<close>

lemma progresses_sheds: "sheds rx tpl \<Longrightarrow> progresses rx"
  unfolding sheds_def progresses_def by blast

lemma progresses_emits: "emits rx tpl r0 \<Longrightarrow> progresses rx"
  unfolding emits_def progresses_def by blast

lemma conversions_progress: "list_all (\<lambda>conv. progresses (pattern conv)) conversions"
  unfolding conversions_def
  using progresses_sheds[OF sheds_dbo] progresses_sheds[OF sheds_bracket]
    progresses_emits[OF emits_rules(1)] progresses_emits[OF emits_rules(2)]
    progresses_emits[OF emits_rules(3)] progresses_emits[OF emits_rules(4)]
    progresses_emits[OF emits_rules(5)] progresses_emits[OF emits_top]
  by simp

subsection \<open>A scan cut in two\<close>

text \<open>
  When the pattern matches at every position of a first piece as it does in the piece alone,
  whatever follows, the scan of the whole text is the scan of the piece followed by the
  scan of the rest.
\<close>

lemma js_replace_cut:
  assumes "progresses rx"
  shows "(\<And>p pw. p \<noteq> [] \<Longrightarrow> suffix p pre \<Longrightarrow> rx pw (p @ y) = rx pw p) \<Longrightarrow>
     js_replace rx tpl pw (pre @ y) =
       js_replace rx tpl pw pre @ js_replace rx tpl (pw_after pw pre) y"
proof (induction "length pre" arbitrary: pre pw rule: less_induct)
  case less
  show ?case
  proof (cases pre)
    case Nil then show ?thesis by (simp add: pw_after_def)
  next
    case (Cons c cs)
    have loc: "rx pw (c # cs @ y) = rx pw (c # cs)"
      using less.prems[of "c # cs" pw] Cons by simp
    have sub: "rx pw' (p @ y) = rx pw' p" if "p \<noteq> []" "suffix p (drop k cs)" for p pw' k
    proof -
      have "suffix (drop k cs) cs" by (rule suffix_drop)
      then have "suffix p pre" using that(2) Cons by (meson suffix_Cons suffix_order.trans)
      with that(1) show ?thesis by (rule less.prems)
    qed
    show ?thesis
    proof (cases "rx pw (c # cs)")
      case None
      have "js_replace rx tpl (is_word c) (cs @ y) =
          js_replace rx tpl (is_word c) cs @ js_replace rx tpl (pw_after (is_word c) cs) y"
        by (rule less.hyps) (use Cons sub[of _ 0] in simp_all)
      moreover have "pw_after (is_word c) cs = pw_after pw (c # cs)" by (simp add: pw_after_def)
      ultimately show ?thesis using None loc Cons by simp
    next
      case (Some m)
      obtain n cap where m: "m = (n, cap)" by (cases m)
      have sm: "rx pw (c # cs) = Some (n, cap)" using Some m by simp
      have sm': "rx pw (c # cs @ y) = Some (n, cap)" using sm loc by simp
      from assms sm have n: "n \<le> length (c # cs)" unfolding progresses_def by blast
      then have tk: "take (n - 1) (cs @ y) = take (n - 1) cs"
        and dr: "drop (n - 1) (cs @ y) = drop (n - 1) cs @ y" by simp_all
      let ?pw = "is_word (last (c # take (n - 1) cs))"
      have ih: "js_replace rx tpl ?pw (drop (n - 1) cs @ y) =
          js_replace rx tpl ?pw (drop (n - 1) cs)
            @ js_replace rx tpl (pw_after ?pw (drop (n - 1) cs)) y"
        by (rule less.hyps) (use Cons sub[of _ "n - 1"] in simp_all)
      have pa: "pw_after ?pw (drop (n - 1) cs) = pw_after pw (c # cs)"
      proof (cases "drop (n - 1) cs = []")
        case True
        then have "take (n - 1) cs = cs" by simp
        with True show ?thesis by (simp add: pw_after_def)
      next
        case False
        then have "cs \<noteq> []" by auto
        with False show ?thesis by (simp add: pw_after_def last_drop)
      qed
      show ?thesis
        unfolding Cons append_Cons js_replace_Some[of rx pw c "cs @ y" n cap tpl, OF sm']
          js_replace_Some[of rx pw c cs n cap tpl, OF sm] tk dr ih pa[unfolded Cons]
        using pa Cons by simp
    qed
  qed
qed

subsection \<open>The row-limiting keyword inside a text\<close>

lemma top_local:
  assumes "p \<noteq> []" "\<not> is_word (last p)"
    and "\<not> ci 79 x" "\<not> ci 80 x" "\<not> is_space x" "\<not> is_digit x"
  shows "rx_top pw (p @ x # xs) = rx_top pw p"
proof -
  have 1: "rx_top pw p = Some (n, cap)" if a: "rx_top pw (p @ x # xs) = Some (n, cap)" for n cap
  proof -
    from a[unfolded rx_top_iff] obtain c1 c2 c3 ws r2 where
      e: "p @ x # xs = (c1 # c2 # c3 # ws @ cap) @ r2"
      and k: "\<not> pw" "ci 84 c1" "ci 79 c2" "ci 80 c3" "ws \<noteq> []" "list_all is_space ws"
        "cap \<noteq> []" "list_all is_digit cap"
      and st: "stops is_word r2" and n: "n = 3 + length ws + length cap"
      by auto
    let ?m = "c1 # c2 # c3 # ws @ cap"
    have lm: "is_word (last ?m)" using k(7,8) by (auto simp: list_all_iff is_word_def)
    have nx: "x \<notin> set (tl ?m)"
      using assms(3-6) k by (auto simp: list_all_iff)
    from e consider u where "p = ?m @ u" "r2 = u @ x # xs" | u where "p @ u = ?m" "x # xs = u @ r2" "u \<noteq> []"
      by (auto simp: append_eq_append_conv2 simp del: append.simps) (metis append_Nil2)+
    then show ?thesis
    proof cases
      case 1
      have "u \<noteq> []" using 1(1) lm assms(2) k(7) by auto
      have "stops is_word u" using st 1(2) by (simp add: stops_prefix)
      from rx_top_match[OF k(1-8) this] show ?thesis using 1(1) n by simp
    next
      case 2
      then obtain u' where "u = x # u'" by (cases u) auto
      with 2(1) have "?m = p @ x # u'" by simp
      with assms(1) have "x \<in> set (tl ?m)" by (cases p) auto
      with nx show ?thesis by blast
    qed
  qed
  have 2: "rx_top pw (p @ x # xs) = Some (n, cap)" if a: "rx_top pw p = Some (n, cap)" for n cap
  proof -
    from a[unfolded rx_top_iff] obtain c1 c2 c3 ws r2 where
      e: "p = (c1 # c2 # c3 # ws @ cap) @ r2"
      and k: "\<not> pw" "ci 84 c1" "ci 79 c2" "ci 80 c3" "ws \<noteq> []" "list_all is_space ws"
        "cap \<noteq> []" "list_all is_digit cap"
      and st: "stops is_word r2" and n: "n = 3 + length ws + length cap"
      by auto
    have "is_word (last (c1 # c2 # c3 # ws @ cap))" using k(7,8) by (auto simp: list_all_iff is_word_def)
    with e assms(2) k(7) have "r2 \<noteq> []" by auto
    with st have "stops is_word (r2 @ x # xs)" by (cases r2) simp_all
    from rx_top_match[OF k(1-8) this] show ?thesis using e n by simp
  qed
  show ?thesis
  proof (cases "rx_top pw p")
    case None
    show ?thesis
    proof (cases "rx_top pw (p @ x # xs)")
      case (Some m)
      with 1[of "fst m" "snd m"] None show ?thesis by simp
    qed (simp add: None)
  next
    case (Some m)
    with 2[of "fst m" "snd m"] show ?thesis by simp
  qed
qed

lemma js_replace_top_split:
  assumes "\<not> ci 79 x" "\<not> ci 80 x" "\<not> is_space x" "\<not> is_digit x"
    and "pre = [] \<or> \<not> is_word (last pre)"
  shows "js_replace rx_top tpl pw (pre @ x # xs) =
       js_replace rx_top tpl pw pre @ js_replace rx_top tpl (pw_after pw pre) (x # xs)"
proof (rule js_replace_cut[OF progresses_emits[OF emits_top]])
  fix p :: jsstring and pw :: bool
  assume p: "p \<noteq> []" "suffix p pre"
  then have "last p = last pre" "pre \<noteq> []" by (auto simp: suffix_def)
  with assms(5) have "\<not> is_word (last p)" by simp
  from top_local[OF p(1) this assms(1-4)] show "rx_top pw (p @ x # xs) = rx_top pw p" .
qed

lemma keyword_in_context:
  assumes "ci 84 c1" "ci 79 c2" "ci 80 c3"
    and "ws \<noteq> []" "list_all is_space ws" "ds \<noteq> []" "list_all is_digit ds"
    and "pre = [] \<or> \<not> is_word (last pre)" "stops is_word post"
  shows "js_replace rx_top [Lit (js ''LIMIT ''), Group1] False (pre @ c1 # c2 # c3 # ws @ ds @ post) =
       js_replace rx_top [Lit (js ''LIMIT ''), Group1] False pre @ js ''LIMIT '' @ ds
         @ js_replace rx_top [Lit (js ''LIMIT ''), Group1] True post"
proof -
  let ?tpl = "[Lit (js ''LIMIT ''), Group1]"
  let ?m = "c1 # c2 # c3 # ws @ ds"
  have pw: "pw_after False pre = False" using assms(8) by (auto simp: pw_after_def)
  have "rx_top False (c1 # c2 # c3 # ws @ ds @ post) = Some (3 + length ws + length ds, ds)"
    by (rule rx_top_match) (use assms in simp_all)
  then have "rx_top False (?m @ post) = Some (length ?m, ds)" by simp
  from js_replace_match[of rx_top False ?m post ds ?tpl, OF this]
  have "js_replace rx_top ?tpl False (?m @ post) = expand ?tpl ds @ js_replace rx_top ?tpl (is_word (last ?m)) post"
    by simp
  moreover have "is_word (last ?m)" using assms(6,7) by (auto simp: list_all_iff is_word_def)
  ultimately have "js_replace rx_top ?tpl False (c1 # c2 # c3 # ws @ ds @ post) = js ''LIMIT '' @ ds @ js_replace rx_top ?tpl True post"
    by simp
  moreover have "\<not> ci 79 c1" "\<not> ci 80 c1" "\<not> is_space c1" "\<not> is_digit c1"
    using assms(1) by (auto simp: class_defs)
  from js_replace_top_split[OF this assms(8), of ?tpl False "c2 # c3 # ws @ ds @ post"]
  have "js_replace rx_top ?tpl False (pre @ c1 # c2 # c3 # ws @ ds @ post) =
      js_replace rx_top ?tpl False pre
        @ js_replace rx_top ?tpl (pw_after False pre) (c1 # c2 # c3 # ws @ ds @ post)" .
  ultimately show ?thesis using pw by simp
qed

subsection \<open>The rules of the functions around a phrase\<close>

lemma tails_self: "u \<noteq> [] \<Longrightarrow> u \<in> set (tails u)"
  by (cases u) simp_all

lemma proper_suffix_tails: "p = p' @ u \<Longrightarrow> p' \<noteq> [] \<Longrightarrow> u \<noteq> [] \<Longrightarrow> u \<in> set (tails (tl p))"
  by (cases p') (simp_all add: tails_append tails_self)

lemma prefix_local:
  assumes "list_all (\<lambda>u. clash u k) (tails (tl p))" "p' \<noteq> []"
  shows "prefix p (p' @ k @ Y) \<longleftrightarrow> prefix p p'"
proof
  assume "prefix p (p' @ k @ Y)"
  then consider "prefix p p'" | us where "p = p' @ us" "prefix us (k @ Y)"
    by (auto simp: prefix_append)
  then show "prefix p p'"
  proof cases
    case 2
    show ?thesis
    proof (cases "us = []")
      case True with 2 show ?thesis by simp
    next
      case False
      from proper_suffix_tails[OF 2(1) assms(2) False] assms(1) have "clash us k"
        by (auto simp: list_all_iff)
      from clash_not_prefix[OF this, of Y] 2(2) show ?thesis by simp
    qed
  qed
next
  assume "prefix p p'" then show "prefix p (p' @ k @ Y)" by (rule prefix_prefix)
qed

lemma lit_local:
  assumes "list_all (\<lambda>u. clash u k) (tails (tl p))" "p' \<noteq> []"
  shows "rx_lit p pw (p' @ k @ Y) = rx_lit p pw p'"
  by (simp add: rx_lit_def prefix_local[OF assms])

lemma blit_local:
  assumes "list_all (\<lambda>u. clash u k) (tails (tl p))" "p' \<noteq> []"
  shows "rx_blit p pw (p' @ k @ Y) = rx_blit p pw p'"
proof -
  have "boundary pw (p' @ k @ Y) = boundary pw p'"
    using assms(2) by (cases p') (simp_all add: boundary_def)
  then show ?thesis by (simp add: rx_blit_def prefix_local[OF assms])
qed

lemma last_kept:
  assumes "emits rx tpl r0"
  shows "s \<noteq> [] \<Longrightarrow> js_replace rx tpl pw s \<noteq> []
     \<and> is_word (last (js_replace rx tpl pw s)) = is_word (last s)"
proof (induction "length s" arbitrary: s pw rule: less_induct)
  case less
  from less.prems obtain c cs where s: "s = c # cs" by (cases s) auto
  show ?case
  proof (cases "rx pw (c # cs)")
    case None
    show ?thesis
    proof (cases "cs = []")
      case True with None s show ?thesis by simp
    next
      case False
      from less.hyps[of cs "is_word c"] False s
      have "js_replace rx tpl (is_word c) cs \<noteq> []"
        "is_word (last (js_replace rx tpl (is_word c) cs)) = is_word (last cs)" by simp_all
      with None s False show ?thesis by simp
    qed
  next
    case (Some m)
    obtain n cap where m: "m = (n, cap)" by (cases m)
    have sm: "rx pw (c # cs) = Some (n, cap)" using Some m by simp
    from assms sm obtain d where e: "1 \<le> n" "n \<le> length (c # cs)" "expand tpl cap = r0 @ d" "r0 \<noteq> []"
      "is_word (last (expand tpl cap)) = is_word (last (take n (c # cs)))"
      unfolding emits_def by blast
    have r: "js_replace rx tpl pw (c # cs) =
        expand tpl cap @ js_replace rx tpl (is_word (last (c # take (n - 1) cs))) (drop (n - 1) cs)"
      by (rule js_replace_Some[of rx pw c cs n cap tpl, OF sm])
    have ne: "expand tpl cap \<noteq> []" using e(3,4) by simp
    have tk: "take n (c # cs) = c # take (n - 1) cs" using e(1) by (cases n) simp_all
    show ?thesis
    proof (cases "drop (n - 1) cs = []")
      case True
      then have "take (n - 1) cs = cs" by simp
      with True r ne e(5) tk s show ?thesis by simp
    next
      case False
      let ?pw = "is_word (last (c # take (n - 1) cs))"
      from less.hyps[of "drop (n - 1) cs" ?pw] False s
      have "js_replace rx tpl ?pw (drop (n - 1) cs) \<noteq> []"
        "is_word (last (js_replace rx tpl ?pw (drop (n - 1) cs))) = is_word (last (drop (n - 1) cs))"
        by simp_all
      moreover have "last (c # cs) = last (drop (n - 1) cs)"
        using False by (auto simp: last_drop)
      ultimately show ?thesis unfolding s r by simp
    qed
  qed
qed

lemma end_kept:
  assumes "emits rx tpl r0" "X = [] \<or> \<not> is_word (last X)"
  shows "js_replace rx tpl pw X = [] \<or> \<not> is_word (last (js_replace rx tpl pw X))"
proof (cases "X = []")
  case True then show ?thesis by simp
next
  case False
  with last_kept[OF assms(1) False, of pw] assms(2) show ?thesis by simp
qed

lemma start_kept:
  assumes "starts_in rx A" "\<forall>a\<in>A. is_word a" "stops is_word Z"
  shows "stops is_word (js_replace rx tpl pw Z)"
proof (cases Z)
  case Nil then show ?thesis by simp
next
  case (Cons z zs)
  with assms(3) have z: "\<not> is_word z" by simp
  have "rx pw (z # zs) = None"
  proof (cases "rx pw (z # zs)")
    case (Some m)
    with assms(1) have "z \<in> A" unfolding starts_in_def by fastforce
    with assms(2) z show ?thesis by blast
  qed simp
  with Cons z show ?thesis by simp
qed

lemma rule_in_context:
  assumes "emits rx tpl r0" "starts_in rx A" "\<forall>a\<in>A. is_word a" "set ph \<inter> A = {}"
    and loc: "\<forall>p pw. p \<noteq> [] \<longrightarrow> rx pw (p @ ph @ Z) = rx pw p"
    and "ph \<noteq> []" "is_word (last ph)"
    and "X = [] \<or> \<not> is_word (last X)" "stops is_word Z"
  shows "js_replace rx tpl False (X @ ph @ Z) =
      js_replace rx tpl False X @ ph @ js_replace rx tpl True Z"
    and "js_replace rx tpl False X = [] \<or> \<not> is_word (last (js_replace rx tpl False X))"
    and "stops is_word (js_replace rx tpl True Z)"
proof -
  have "js_replace rx tpl False (X @ ph @ Z) =
      js_replace rx tpl False X @ js_replace rx tpl (pw_after False X) (ph @ Z)"
    by (rule js_replace_cut[OF progresses_emits[OF assms(1)]]) (rule loc[rule_format])
  also have "js_replace rx tpl (pw_after False X) (ph @ Z) =
      ph @ js_replace rx tpl (pw_after (pw_after False X) ph) Z"
    by (rule skip_prefix[OF assms(2,4)])
  also have "pw_after (pw_after False X) ph = True"
    using assms(6,7) by (simp add: pw_after_def)
  finally show "js_replace rx tpl False (X @ ph @ Z) =
      js_replace rx tpl False X @ ph @ js_replace rx tpl True Z" .
  show "js_replace rx tpl False X = [] \<or> \<not> is_word (last (js_replace rx tpl False X))"
    by (rule end_kept[OF assms(1,8)])
  show "stops is_word (js_replace rx tpl True Z)"
    by (rule start_kept[OF assms(2,3,9)])
qed

lemma keyword_apart:
  assumes "ci 84 c1" "ci 79 c2"
  shows "list_all (\<lambda>u. clash u [c1, c2]) (tails (tl (js ''GETDATE()'')))"
    "list_all (\<lambda>u. clash u [c1, c2]) (tails (tl (js ''GETUTCDATE()'')))"
    "list_all (\<lambda>u. clash u [c1, c2]) (tails (tl (js ''NEWID()'')))"
    "list_all (\<lambda>u. clash u [c1, c2]) (tails (tl (js ''LEN('')))"
    "list_all (\<lambda>u. clash u [c1, c2]) (tails (tl (js ''ISNULL('')))"
  using assms by (auto simp: js_def ci_def)

lemma keyword_through_rules:
  assumes k: "ci 84 c1" "ci 79 c2" "ci 80 c3" "ws \<noteq> []" "list_all is_space ws"
      "ds \<noteq> []" "list_all is_digit ds"
    and X: "X = [] \<or> \<not> is_word (last X)" and Z: "stops is_word Z"
  shows "foldl apply_rule (X @ c1 # c2 # c3 # ws @ ds @ Z) (drop 2 conversions) =
     foldl apply_rule X (drop 2 conversions) @ js ''LIMIT '' @ ds
       @ foldl (apply_after True) Z (drop 2 conversions)"
proof -
  let ?ph = "c1 # c2 # c3 # ws @ ds"
  have ph: "?ph \<noteq> []" "is_word (last ?ph)"
    using k(6,7) by (auto simp: list_all_iff is_word_def)
  have a: "set ?ph \<inter> {71} = {}" "set ?ph \<inter> {78} = {}" "set ?ph \<inter> {76} = {}" "set ?ph \<inter> {73} = {}"
    using k by (auto simp: class_defs list_all_iff)
  have w: "\<forall>a\<in>{71}. is_word a" "\<forall>a\<in>{78}. is_word a" "\<forall>a\<in>{76}. is_word a" "\<forall>a\<in>{73}. is_word a"
    by (simp_all add: class_defs)
  have e: "?ph @ Y = [c1, c2] @ c3 # ws @ ds @ Y" for Y by simp
  have l: "\<forall>q pw. q \<noteq> [] \<longrightarrow> rx_lit p pw (q @ ?ph @ Y) = rx_lit p pw q"
    if "list_all (\<lambda>u. clash u [c1, c2]) (tails (tl p))" for p Y
    unfolding e using lit_local[OF that] by blast
  have b: "\<forall>q pw. q \<noteq> [] \<longrightarrow> rx_blit p pw (q @ ?ph @ Y) = rx_blit p pw q"
    if "list_all (\<lambda>u. clash u [c1, c2]) (tails (tl p))" for p Y
    unfolding e using blit_local[OF that] by blast
  note ap = keyword_apart[OF k(1,2)]
  let ?r3 = "js_replace (rx_lit (js ''GETDATE()'')) [Lit (js ''NOW()'')]"
  let ?r4 = "js_replace (rx_lit (js ''GETUTCDATE()'')) [Lit (js ''UTC_TIMESTAMP()'')]"
  let ?r5 = "js_replace (rx_lit (js ''NEWID()'')) [Lit (js ''UUID()'')]"
  let ?r6 = "js_replace (rx_blit (js ''LEN('')) [Lit (js ''LENGTH('')]"
  let ?r7 = "js_replace (rx_blit (js ''ISNULL('')) [Lit (js ''IFNULL('')]"
  let ?r8 = "js_replace rx_top [Lit (js ''LIMIT ''), Group1]"
  have s3: "starts_in (rx_lit (js ''GETDATE()'')) {71}" "starts_in (rx_lit (js ''GETUTCDATE()'')) {71}"
    "starts_in (rx_lit (js ''NEWID()'')) {78}" "starts_in (rx_blit (js ''LEN('')) {76}"
    "starts_in (rx_blit (js ''ISNULL('')) {73}"
    unfolding js_literals by (rule starts_in_lit starts_in_blit)+
  note c3 = rule_in_context[of "rx_lit (js ''GETDATE()'')" _ _ "{71}" ?ph Z X,
      OF emits_rules(1) s3(1) w(1) a(1) l[OF ap(1)] ph X Z]
  note c4 = rule_in_context[of "rx_lit (js ''GETUTCDATE()'')" _ _ "{71}" ?ph "?r3 True Z" "?r3 False X",
      OF emits_rules(2) s3(2) w(1) a(1) l[OF ap(2)] ph c3(2,3)]
  note c5 = rule_in_context[of "rx_lit (js ''NEWID()'')" _ _ "{78}" ?ph "?r4 True (?r3 True Z)" "?r4 False (?r3 False X)",
      OF emits_rules(3) s3(3) w(2) a(2) l[OF ap(3)] ph c4(2,3)]
  note c6 = rule_in_context[of "rx_blit (js ''LEN('')" _ _ "{76}" ?ph "?r5 True (?r4 True (?r3 True Z))" "?r5 False (?r4 False (?r3 False X))",
      OF emits_rules(4) s3(4) w(3) a(3) b[OF ap(4)] ph c5(2,3)]
  note c7 = rule_in_context[of "rx_blit (js ''ISNULL('')" _ _ "{73}" ?ph "?r6 True (?r5 True (?r4 True (?r3 True Z)))" "?r6 False (?r5 False (?r4 False (?r3 False X)))",
      OF emits_rules(5) s3(5) w(4) a(4) b[OF ap(5)] ph c6(2,3)]
  have "?r8 False (?r7 False (?r6 False (?r5 False (?r4 False (?r3 False (X @ ?ph @ Z)))))) =
      ?r8 False (?r7 False (?r6 False (?r5 False (?r4 False (?r3 False X)))) @ ?ph
        @ ?r7 True (?r6 True (?r5 True (?r4 True (?r3 True Z)))))"
    by (simp only: c3(1) c4(1) c5(1) c6(1) c7(1))
  also have "\<dots> = ?r8 False (?r7 False (?r6 False (?r5 False (?r4 False (?r3 False X))))) @ js ''LIMIT '' @ ds
        @ ?r8 True (?r7 True (?r6 True (?r5 True (?r4 True (?r3 True Z)))))"
    using keyword_in_context[OF k c7(2,3)] by simp
  finally show ?thesis
    by (simp add: conversions_def apply_rule_def apply_after_def)
qed

lemma rule_before_call:
  assumes "emits rx tpl r0" "starts_in rx A" "set ph \<inter> A = {}"
    and loc: "\<forall>p pw. p \<noteq> [] \<longrightarrow> rx pw (p @ ph @ Z) = rx pw p"
    and "ph \<noteq> []" "\<not> is_word (last ph)"
    and "X = [] \<or> \<not> is_word (last X)"
  shows "js_replace rx tpl False (X @ ph @ Z) =
      js_replace rx tpl False X @ ph @ js_replace rx tpl False Z"
    and "js_replace rx tpl False X = [] \<or> \<not> is_word (last (js_replace rx tpl False X))"
proof -
  have "js_replace rx tpl False (X @ ph @ Z) =
      js_replace rx tpl False X @ js_replace rx tpl (pw_after False X) (ph @ Z)"
    by (rule js_replace_cut[OF progresses_emits[OF assms(1)]]) (rule loc[rule_format])
  also have "js_replace rx tpl (pw_after False X) (ph @ Z) =
      ph @ js_replace rx tpl (pw_after (pw_after False X) ph) Z"
    by (rule skip_prefix[OF assms(2,3)])
  also have "pw_after (pw_after False X) ph = False"
    using assms(5,6) by (simp add: pw_after_def)
  finally show "js_replace rx tpl False (X @ ph @ Z) =
      js_replace rx tpl False X @ ph @ js_replace rx tpl False Z" .
  show "js_replace rx tpl False X = [] \<or> \<not> is_word (last (js_replace rx tpl False X))"
    by (rule end_kept[OF assms(1,7)])
qed

lemma call_apart:
  "list_all (\<lambda>u. clash u [103]) (tails (tl (js ''GETDATE()'')))"
  "list_all (\<lambda>u. clash u [103]) (tails (tl (js ''GETUTCDATE()'')))"
  "list_all (\<lambda>u. clash u [103]) (tails (tl (js ''NEWID()'')))"
  "list_all (\<lambda>u. clash u [103]) (tails (tl (js ''LEN('')))"
  "list_all (\<lambda>u. clash u [103]) (tails (tl (js ''ISNULL('')))"
  by (simp_all add: js_def)

lemma top_over_call:
  "js_replace rx_top tpl pw (js ''getdate()'' @ Z) = js ''getdate()'' @ js_replace rx_top tpl False Z"
proof -
  have n: "rx_top pw' (c # s) = None" if "c \<noteq> 84" "c \<noteq> 116" for pw' c s
  proof (cases "rx_top pw' (c # s)")
    case (Some m)
    with starts_in_top that show ?thesis unfolding starts_in_def by fastforce
  qed simp
  have t: "rx_top pw' (116 # 100 # 97 # s) = None" "rx_top pw' (116 # 101 # 40 # s) = None" for pw' s
    by (simp_all add: rx_top_def ci_def)
  show ?thesis
    by (simp add: js_def n t is_word_def is_digit_def)
qed

lemma lowercase_call_through_rules:
  assumes X: "X = [] \<or> \<not> is_word (last X)"
  shows "foldl apply_rule (X @ js ''getdate()'' @ Z) (drop 2 conversions) =
     foldl apply_rule X (drop 2 conversions) @ js ''getdate()''
       @ foldl apply_rule Z (drop 2 conversions)"
proof -
  let ?ph = "js ''getdate()''"
  have ph: "?ph \<noteq> []" "\<not> is_word (last ?ph)"
    by (simp_all add: js_def class_defs)
  have a: "set ?ph \<inter> {71} = {}" "set ?ph \<inter> {78} = {}" "set ?ph \<inter> {76} = {}" "set ?ph \<inter> {73} = {}"
    by (simp_all add: js_def)
  have e: "?ph @ Y = [103] @ js ''etdate()'' @ Y" for Y by (simp add: js_def)
  have l: "\<forall>q pw. q \<noteq> [] \<longrightarrow> rx_lit p pw (q @ ?ph @ Y) = rx_lit p pw q"
    if "list_all (\<lambda>u. clash u [103]) (tails (tl p))" for p Y
    unfolding e using lit_local[OF that] by blast
  have b: "\<forall>q pw. q \<noteq> [] \<longrightarrow> rx_blit p pw (q @ ?ph @ Y) = rx_blit p pw q"
    if "list_all (\<lambda>u. clash u [103]) (tails (tl p))" for p Y
    unfolding e using blit_local[OF that] by blast
  note ap = call_apart
  let ?r3 = "js_replace (rx_lit (js ''GETDATE()'')) [Lit (js ''NOW()'')]"
  let ?r4 = "js_replace (rx_lit (js ''GETUTCDATE()'')) [Lit (js ''UTC_TIMESTAMP()'')]"
  let ?r5 = "js_replace (rx_lit (js ''NEWID()'')) [Lit (js ''UUID()'')]"
  let ?r6 = "js_replace (rx_blit (js ''LEN('')) [Lit (js ''LENGTH('')]"
  let ?r7 = "js_replace (rx_blit (js ''ISNULL('')) [Lit (js ''IFNULL('')]"
  let ?r8 = "js_replace rx_top [Lit (js ''LIMIT ''), Group1]"
  have s3: "starts_in (rx_lit (js ''GETDATE()'')) {71}" "starts_in (rx_lit (js ''GETUTCDATE()'')) {71}"
    "starts_in (rx_lit (js ''NEWID()'')) {78}" "starts_in (rx_blit (js ''LEN('')) {76}"
    "starts_in (rx_blit (js ''ISNULL('')) {73}"
    unfolding js_literals by (rule starts_in_lit starts_in_blit)+
  note c3 = rule_before_call[of "rx_lit (js ''GETDATE()'')" _ _ "{71}" ?ph Z X,
      OF emits_rules(1) s3(1) a(1) l[OF ap(1)] ph X]
  note c4 = rule_before_call[of "rx_lit (js ''GETUTCDATE()'')" _ _ "{71}" ?ph "?r3 False Z" "?r3 False X",
      OF emits_rules(2) s3(2) a(1) l[OF ap(2)] ph c3(2)]
  note c5 = rule_before_call[of "rx_lit (js ''NEWID()'')" _ _ "{78}" ?ph "?r4 False (?r3 False Z)" "?r4 False (?r3 False X)",
      OF emits_rules(3) s3(3) a(2) l[OF ap(3)] ph c4(2)]
  note c6 = rule_before_call[of "rx_blit (js ''LEN('')" _ _ "{76}" ?ph "?r5 False (?r4 False (?r3 False Z))" "?r5 False (?r4 False (?r3 False X))",
      OF emits_rules(4) s3(4) a(3) b[OF ap(4)] ph c5(2)]
  note c7 = rule_before_call[of "rx_blit (js ''ISNULL('')" _ _ "{73}" ?ph "?r6 False (?r5 False (?r4 False (?r3 False Z)))" "?r6 False (?r5 False (?r4 False (?r3 False X)))",
      OF emits_rules(5) s3(5) a(4) b[OF ap(5)] ph c6(2)]
  let ?X7 = "?r7 False (?r6 False (?r5 False (?r4 False (?r3 False X))))"
  let ?Z7 = "?r7 False (?r6 False (?r5 False (?r4 False (?r3 False Z))))"
  have g: "\<not> ci 79 103" "\<not> ci 80 103" "\<not> is_space 103" "\<not> is_digit 103"
    by (simp_all add: class_defs)
  have "?r8 False (?X7 @ 103 # js ''etdate()'' @ ?Z7) =
      ?r8 False ?X7 @ ?r8 (pw_after False ?X7) (103 # js ''etdate()'' @ ?Z7)"
    by (rule js_replace_top_split[OF g c7(2)])
  also have "103 # js ''etdate()'' @ ?Z7 = ?ph @ ?Z7" by (simp add: js_def)
  also have "?r8 (pw_after False ?X7) (?ph @ ?Z7) = ?ph @ ?r8 False ?Z7" by (rule top_over_call)
  finally have c8: "?r8 False (?X7 @ ?ph @ ?Z7) = ?r8 False ?X7 @ ?ph @ ?r8 False ?Z7"
    by (simp add: js_def)
  have "?r8 False (?r7 False (?r6 False (?r5 False (?r4 False (?r3 False (X @ ?ph @ Z)))))) =
      ?r8 False (?X7 @ ?ph @ ?Z7)"
    by (simp only: c3(1) c4(1) c5(1) c6(1) c7(1))
  also note c8
  finally show ?thesis
    by (simp add: conversions_def apply_rule_def)
qed

lemma uppercase_call_rule:
  "js_replace (rx_lit (js ''GETDATE()'')) [Lit (js ''NOW()'')] False (pre @ js ''GETDATE()'' @ post) =
     js_replace (rx_lit (js ''GETDATE()'')) [Lit (js ''NOW()'')] False pre @ js ''NOW()''
       @ js_replace (rx_lit (js ''GETDATE()'')) [Lit (js ''NOW()'')] False post"
proof -
  let ?rx = "rx_lit (js ''GETDATE()'')"
  let ?tpl = "[Lit (js ''NOW()'')]"
  have ap: "list_all (\<lambda>u. clash u [71]) (tails (tl (js ''GETDATE()'')))"
    by (simp add: js_def)
  have e: "js ''GETDATE()'' @ Y = [71] @ js ''ETDATE()'' @ Y" for Y by (simp add: js_def)
  have "js_replace ?rx ?tpl False (pre @ js ''GETDATE()'' @ post) =
      js_replace ?rx ?tpl False pre @ js_replace ?rx ?tpl (pw_after False pre) (js ''GETDATE()'' @ post)"
  proof (rule js_replace_cut[OF progresses_emits[OF emits_rules(1)]])
    fix p :: jsstring and pw :: bool
    assume "p \<noteq> []" "suffix p pre"
    from lit_local[OF ap this(1)] show "?rx pw (p @ js ''GETDATE()'' @ post) = ?rx pw p"
      unfolding e .
  qed
  also have "?rx pw (js ''GETDATE()'' @ post) = Some (length (js ''GETDATE()''), [])" for pw
    by (simp add: rx_lit_def)
  from js_replace_match[of ?rx _ "js ''GETDATE()''" post "[]" ?tpl, OF this]
  have "js_replace ?rx ?tpl (pw_after False pre) (js ''GETDATE()'' @ post) =
      js ''NOW()'' @ js_replace ?rx ?tpl False post"
    by (simp add: js_def class_defs)
  finally show ?thesis .
qed

lemma apply_conversions_split:
  "apply_conversions text = foldl apply_rule (foldl apply_rule text (take 2 conversions)) (drop 2 conversions)"
proof -
  have "foldl apply_rule text (take 2 conversions @ drop 2 conversions)
      = foldl apply_rule (foldl apply_rule text (take 2 conversions)) (drop 2 conversions)"
    by (rule foldl_append)
  then show ?thesis by (simp add: apply_conversions_def)
qed

subsection \<open>A piece of text that every rule keeps\<close>

lemma sublist_right: "sublist s y \<Longrightarrow> sublist s (r @ y)"
  by (auto simp: sublist_def) (metis append_assoc)

lemma sublist_left: "sublist s r \<Longrightarrow> sublist s (r @ y)"
  by (auto simp: sublist_def) (metis append_assoc)

lemma sublist_kept:
  assumes prog: "progresses rx"
    and pass: "\<And>pw post. \<exists>pw'. js_replace rx tpl pw (s @ post) = s @ js_replace rx tpl pw' post"
    and over: "\<And>pw p post n cap. p \<noteq> [] \<Longrightarrow> rx pw (p @ s @ post) = Some (n, cap) \<Longrightarrow> length p < n
        \<Longrightarrow> sublist s (expand tpl cap)"
  shows "sublist s (js_replace rx tpl pw (pre @ s @ post))"
proof (induction "length pre" arbitrary: pre pw rule: less_induct)
  case less
  show ?case
  proof (cases pre)
    case Nil
    from pass[of pw post] obtain pw' where "js_replace rx tpl pw (s @ post) = s @ js_replace rx tpl pw' post"
      by blast
    with Nil show ?thesis by simp
  next
    case (Cons c cs)
    show ?thesis
    proof (cases "rx pw (c # cs @ s @ post)")
      case None
      have "sublist s (js_replace rx tpl (is_word c) (cs @ s @ post))"
        by (rule less.hyps) (simp add: Cons)
      then have "sublist s ([c] @ js_replace rx tpl (is_word c) (cs @ s @ post))"
        by (rule sublist_right)
      with None Cons show ?thesis by simp
    next
      case (Some m)
      obtain n cap where m: "m = (n, cap)" by (cases m)
      have sm: "rx pw (c # cs @ s @ post) = Some (n, cap)" using Some m by simp
      let ?pw = "is_word (last (c # take (n - 1) (cs @ s @ post)))"
      have r: "js_replace rx tpl pw (c # cs @ s @ post) =
          expand tpl cap @ js_replace rx tpl ?pw (drop (n - 1) (cs @ s @ post))"
        by (rule js_replace_Some[of rx pw c "cs @ s @ post" n cap tpl, OF sm])
      show ?thesis
      proof (cases "n \<le> length (c # cs)")
        case True
        then have dr: "drop (n - 1) (cs @ s @ post) = drop (n - 1) cs @ s @ post" by simp
        have "sublist s (js_replace rx tpl ?pw (drop (n - 1) cs @ s @ post))"
          by (rule less.hyps) (simp add: Cons)
        then have "sublist s (expand tpl cap @ js_replace rx tpl ?pw (drop (n - 1) cs @ s @ post))"
          by (rule sublist_right)
        then show ?thesis unfolding Cons append_Cons r dr .
      next
        case False
        then have "length (c # cs) < n" by simp
        from over[where p = "c # cs" and pw = pw and post = post and n = n and cap = cap, OF _ _ this] sm
        have "sublist s (expand tpl cap)" by simp
        then have "sublist s (expand tpl cap @ js_replace rx tpl ?pw (drop (n - 1) (cs @ s @ post)))"
          by (rule sublist_left)
        then show ?thesis unfolding Cons append_Cons r .
      qed
    qed
  qed
qed

lemma sublist_rule:
  assumes "progresses rx"
    and "\<And>pw post. \<exists>pw'. js_replace rx tpl pw (s @ post) = s @ js_replace rx tpl pw' post"
    and "\<And>pw p post n cap. p \<noteq> [] \<Longrightarrow> rx pw (p @ s @ post) = Some (n, cap) \<Longrightarrow> length p < n
        \<Longrightarrow> sublist s (expand tpl cap)"
    and "sublist s t"
  shows "sublist s (js_replace rx tpl pw t)"
proof -
  from assms(4) obtain pre post where "t = pre @ s @ post" by (auto simp: sublist_def)
  then show ?thesis using sublist_kept[OF assms(1-3), where pw = pw and pre = pre and post = post] by simp
qed

lemma reach:
  assumes "p @ s @ post = m @ rest" "length p < length m" "last m \<notin> set s"
  shows "\<exists>v. m = p @ s @ v \<and> v \<noteq> []"
proof -
  have "length p \<le> length m" using assms(2) by simp
  from append_longer[OF assms(1)[symmetric] this] obtain u where u: "m = p @ u" "s @ post = u @ rest"
    by blast
  with assms(2) have un: "u \<noteq> []" by auto
  then have lu: "last u = last m" using u(1) by simp
  show ?thesis
  proof (cases "length u \<le> length s")
    case True
    from append_longer[OF u(2) True] obtain z where "s = u @ z" by blast
    then have "last u \<in> set s" using un by simp
    with lu assms(3) show ?thesis by simp
  next
    case False
    then have "length s \<le> length u" by simp
    from append_longer[OF u(2)[symmetric] this] obtain v where v: "u = s @ v" by blast
    with False have "v \<noteq> []" by auto
    with u(1) v show ?thesis by blast
  qed
qed

lemma call_chars:
  "set (js ''getdate()'') = {103, 101, 116, 100, 97, 40, 41}"
  by (auto simp: js_def)

lemma call_over_dbo:
  assumes "rx_dbo pw (p @ js ''getdate()'' @ post) = Some (n, cap)" "length p < n"
  shows False
proof -
  from assms(1)[unfolded rx_dbo_iff] obtain rest where
    e: "p @ js ''getdate()'' @ post = (js ''[dbo].['' @ cap @ [93]) @ rest"
    and k: "list_all is_word cap" "n = length cap + 8"
    by auto
  let ?m = "js ''[dbo].['' @ cap @ [93]"
  have "length p < length ?m" using assms(2) k(2) by (simp add: js_def)
  moreover have "last ?m \<notin> set (js ''getdate()'')" by (simp add: call_chars)
  ultimately obtain v where "?m = p @ js ''getdate()'' @ v" using reach[OF e] by blast
  then have "40 \<in> set ?m" by (simp add: call_chars)
  then have "40 \<in> set cap" by (simp add: js_def)
  with k(1) show False by (auto simp: list_all_iff class_defs)
qed

lemma call_over_bracket:
  assumes "rx_bracket pw (p @ js ''getdate()'' @ post) = Some (n, cap)" "length p < n" "p \<noteq> []"
  shows "sublist (js ''getdate()'') cap"
proof -
  from assms(1)[unfolded rx_bracket_iff] obtain rest where
    e: "p @ js ''getdate()'' @ post = (91 # cap @ [93]) @ rest"
    and k: "n = length cap + 2"
    by auto
  let ?m = "91 # cap @ [93]"
  have "length p < length ?m" using assms(2) k by simp
  moreover have "last ?m \<notin> set (js ''getdate()'')" by (simp add: call_chars)
  ultimately obtain v where v: "?m = p @ js ''getdate()'' @ v" "v \<noteq> []" using reach[OF e] by blast
  from assms(3) v(1) obtain p' where p: "p = 91 # p'" by (cases p) auto
  from v(2) obtain v' x where vx: "v = v' @ [x]" by (cases v rule: rev_cases) auto
  from v(1) p vx have "cap @ [93] = (p' @ js ''getdate()'' @ v') @ [x]" by simp
  then have "cap = p' @ js ''getdate()'' @ v'" by (simp only: append1_eq_conv)
  then show ?thesis by (auto simp: sublist_def)
qed

lemma call_over_other:
  assumes "rx pw (p @ js ''getdate()'' @ post) = Some (n, cap)" "length p < n"
    and "\<And>pw t n cap. rx pw t = Some (n, cap) \<Longrightarrow> n \<le> length t \<and> 103 \<notin> set (take n t)"
  shows False
proof -
  from assms(3)[OF assms(1)] have n: "n \<le> length (p @ js ''getdate()'' @ post)"
    and g: "103 \<notin> set (take n (p @ js ''getdate()'' @ post))" by blast+
  have "(p @ js ''getdate()'' @ post) ! length p = 103" by (simp add: js_def nth_append)
  moreover have "(take n (p @ js ''getdate()'' @ post)) ! length p = (p @ js ''getdate()'' @ post) ! length p"
    by (rule nth_take) (rule assms(2))
  moreover have "length p < length (take n (p @ js ''getdate()'' @ post))" using assms(2) n by simp
  ultimately have "103 \<in> set (take n (p @ js ''getdate()'' @ post))"
    by (metis nth_mem)
  with g show False by blast
qed

lemma no_g_lit: "103 \<notin> set pl \<Longrightarrow> rx_lit pl pw t = Some (n, cap) \<Longrightarrow> n \<le> length t \<and> 103 \<notin> set (take n t)"
  by (auto simp: rx_lit_iff prefix_def)

lemma no_g_blit: "103 \<notin> set pl \<Longrightarrow> rx_blit pl pw t = Some (n, cap) \<Longrightarrow> n \<le> length t \<and> 103 \<notin> set (take n t)"
  by (auto simp: rx_blit_iff prefix_def)

lemma no_g_top: "rx_top pw t = Some (n, cap) \<Longrightarrow> n \<le> length t \<and> 103 \<notin> set (take n t)"
proof -
  assume "rx_top pw t = Some (n, cap)"
  from this[unfolded rx_top_iff] obtain c1 c2 c3 ws r2 where
    e: "t = (c1 # c2 # c3 # ws @ cap) @ r2"
    and k: "ci 84 c1" "ci 79 c2" "ci 80 c3" "list_all is_space ws" "list_all is_digit cap"
    and n: "n = 3 + length ws + length cap"
    by auto
  have "n = length (c1 # c2 # c3 # ws @ cap)" using n by simp
  with e have "take n t = c1 # c2 # c3 # ws @ cap" by (metis append_eq_conv_conj)
  moreover have "103 \<notin> set (c1 # c2 # c3 # ws @ cap)"
    using k by (auto simp: class_defs list_all_iff)
  ultimately show ?thesis using e n by simp
qed

lemma call_passes:
  assumes "starts_in rx A" "set (js ''getdate()'') \<inter> A = {}"
  shows "\<exists>pw'. js_replace rx tpl pw (js ''getdate()'' @ post) = js ''getdate()'' @ js_replace rx tpl pw' post"
  using skip_prefix[OF assms, of tpl pw post] by blast

lemma call_kept_lit:
  assumes "103 \<notin> set (c # pl)" "c \<notin> set (js ''getdate()'')" "r \<noteq> []" "is_word (last r) = is_word (last (c # pl))"
    and "sublist (js ''getdate()'') t"
  shows "sublist (js ''getdate()'') (js_replace (rx_lit (c # pl)) [Lit r] pw t)"
proof (rule sublist_rule[OF progresses_emits[OF emits_lit[OF _ assms(3,4)]] _ _ assms(5)])
  show "c # pl \<noteq> []" by simp
  show "\<exists>pw'. js_replace (rx_lit (c # pl)) [Lit r] pw (js ''getdate()'' @ post) =
      js ''getdate()'' @ js_replace (rx_lit (c # pl)) [Lit r] pw' post" for pw post
    by (rule call_passes[OF starts_in_lit]) (use assms(2) in simp)
  show "sublist (js ''getdate()'') (expand [Lit r] cap)"
    if "rx_lit (c # pl) pw (p @ js ''getdate()'' @ post) = Some (n, cap)" "length p < n"
    for pw p post n cap
    using call_over_other[where rx = "rx_lit (c # pl)" and pw = pw and p = p and post = post and n = n and cap = cap, OF that] no_g_lit[OF assms(1)] by blast
qed

lemma call_kept_blit:
  assumes "103 \<notin> set (c # pl)" "c \<notin> set (js ''getdate()'')" "r \<noteq> []" "is_word (last r) = is_word (last (c # pl))"
    and "sublist (js ''getdate()'') t"
  shows "sublist (js ''getdate()'') (js_replace (rx_blit (c # pl)) [Lit r] pw t)"
proof (rule sublist_rule[OF progresses_emits[OF emits_blit[OF _ assms(3,4)]] _ _ assms(5)])
  show "c # pl \<noteq> []" by simp
  show "\<exists>pw'. js_replace (rx_blit (c # pl)) [Lit r] pw (js ''getdate()'' @ post) =
      js ''getdate()'' @ js_replace (rx_blit (c # pl)) [Lit r] pw' post" for pw post
    by (rule call_passes[OF starts_in_blit]) (use assms(2) in simp)
  show "sublist (js ''getdate()'') (expand [Lit r] cap)"
    if "rx_blit (c # pl) pw (p @ js ''getdate()'' @ post) = Some (n, cap)" "length p < n"
    for pw p post n cap
    using call_over_other[where rx = "rx_blit (c # pl)" and pw = pw and p = p and post = post and n = n and cap = cap, OF that] no_g_blit[OF assms(1)] by blast
qed

lemma call_kept_dbo:
  assumes "sublist (js ''getdate()'') t"
  shows "sublist (js ''getdate()'') (js_replace rx_dbo [Group1] pw t)"
proof (rule sublist_rule[OF progresses_sheds[OF sheds_dbo] _ _ assms])
  show "\<exists>pw'. js_replace rx_dbo [Group1] pw (js ''getdate()'' @ post) =
      js ''getdate()'' @ js_replace rx_dbo [Group1] pw' post" for pw post
    by (rule call_passes[OF starts_in_dbo]) (simp add: call_chars)
  show "sublist (js ''getdate()'') (expand [Group1] cap)"
    if "rx_dbo pw (p @ js ''getdate()'' @ post) = Some (n, cap)" "length p < n"
    for pw p post n cap
    using call_over_dbo[OF that] by blast
qed

lemma call_kept_bracket:
  assumes "sublist (js ''getdate()'') t"
  shows "sublist (js ''getdate()'') (js_replace rx_bracket [Group1] pw t)"
proof (rule sublist_rule[OF progresses_sheds[OF sheds_bracket] _ _ assms])
  show "\<exists>pw'. js_replace rx_bracket [Group1] pw (js ''getdate()'' @ post) =
      js ''getdate()'' @ js_replace rx_bracket [Group1] pw' post" for pw post
    by (rule call_passes[OF starts_in_bracket]) (simp add: call_chars)
  show "sublist (js ''getdate()'') (expand [Group1] cap)"
    if "p \<noteq> []" "rx_bracket pw (p @ js ''getdate()'' @ post) = Some (n, cap)" "length p < n"
    for pw p post n cap
    using call_over_bracket[OF that(2,3,1)] by simp
qed

lemma call_kept_top:
  assumes "sublist (js ''getdate()'') t"
  shows "sublist (js ''getdate()'') (js_replace rx_top [Lit (js ''LIMIT ''), Group1] pw t)"
proof (rule sublist_rule[OF progresses_emits[OF emits_top] _ _ assms])
  show "\<exists>pw'. js_replace rx_top [Lit (js ''LIMIT ''), Group1] pw (js ''getdate()'' @ post) =
      js ''getdate()'' @ js_replace rx_top [Lit (js ''LIMIT ''), Group1] pw' post" for pw post
    using top_over_call[of "[Lit (js ''LIMIT ''), Group1]" pw post] by blast
  show "sublist (js ''getdate()'') (expand [Lit (js ''LIMIT ''), Group1] cap)"
    if "rx_top pw (p @ js ''getdate()'' @ post) = Some (n, cap)" "length p < n"
    for pw p post n cap
    using call_over_other[where rx = "rx_top" and pw = pw and p = p and post = post and n = n and cap = cap, OF that] no_g_top by blast
qed

lemma lowercase_call_kept:
  assumes "sublist (js ''getdate()'') t"
  shows "sublist (js ''getdate()'') (apply_conversions t)"
  unfolding apply_conversions_unfold js_literals
  by (intro call_kept_top call_kept_blit call_kept_lit call_kept_bracket call_kept_dbo assms)
    (simp_all add: js_def class_defs)


subsection \<open>The lines of a text\<close>

lemma rl_lines_copy: "\<not> is_eol c \<Longrightarrow> rl_lines buf (c # s) = rl_lines (buf @ [c]) s"
  by (cases s) (auto simp: is_eol_def)

lemma rl_lines_free: "\<not> list_ex is_eol l \<Longrightarrow> rl_lines buf (l @ s) = rl_lines (buf @ l) s"
  by (induction l arbitrary: buf) (simp_all add: rl_lines_copy)

lemma rl_lines_LF: "rl_lines buf (NL # s) = buf # rl_lines [] s"
  by (cases s) auto

lemma rl_lines_CRLF: "rl_lines buf (13 # NL # s) = buf # rl_lines [] s"
  by simp

lemma rl_lines_CR: "stops (\<lambda>c. c = NL) s \<Longrightarrow> rl_lines buf (13 # s) = buf # rl_lines [] s"
  by (cases s) (auto simp: stops_def)

lemma rl_lines_join:
  "well_ended lts rest \<Longrightarrow> rl_lines [] (join_lines lts rest) = lines_of lts rest"
proof (induction lts)
  case Nil
  then show ?case using rl_lines_free[of rest "[]" "[]"] by (simp add: lines_of_def)
next
  case (Cons a lts)
  obtain l t where a: "a = (l, t)" by (cases a)
  from Cons.prems a have l: "\<not> list_ex is_eol l" and w: "well_ended lts rest"
    and c: "t = CR \<Longrightarrow> stops (\<lambda>c. c = NL) (join_lines lts rest)" by auto
  have "rl_lines [] (join_lines (a # lts) rest) = rl_lines l (eol_text t @ join_lines lts rest)"
    using rl_lines_free[OF l, of "[]"] a by simp
  also have "\<dots> = l # rl_lines [] (join_lines lts rest)"
    using c by (cases t) (simp_all add: rl_lines_LF rl_lines_CR)
  finally show ?case using Cons.IH[OF w] a by (simp add: lines_of_def)
qed

lemma join_lines_total: "\<exists>lts rest. s = join_lines lts rest \<and> well_ended lts rest"
proof (induction s)
  case Nil
  have "[] = join_lines [] [] \<and> well_ended [] []" by simp
  then show ?case by blast
next
  case (Cons c s)
  then obtain lts rest where s: "s = join_lines lts rest" and w: "well_ended lts rest" by blast
  show ?case
  proof (cases "is_eol c")
    case False
    show ?thesis
    proof (cases lts)
      case Nil
      then have "c # s = join_lines [] (c # rest) \<and> well_ended [] (c # rest)"
        using s w False by simp
      then show ?thesis by blast
    next
      case (Cons a more)
      obtain l t where a: "a = (l, t)" by (cases a)
      have "c # s = join_lines ((c # l, t) # more) rest \<and> well_ended ((c # l, t) # more) rest"
        using s w False Cons a by simp
      then show ?thesis by blast
    qed
  next
    case True
    show ?thesis
    proof (cases "c = NL")
      case True
      have "c # s = join_lines (([], LF) # lts) rest \<and> well_ended (([], LF) # lts) rest"
        using s w True by simp
      then show ?thesis by blast
    next
      case False
      with True have c: "c = 13" by (simp add: is_eol_def)
      show ?thesis
      proof (cases "stops (\<lambda>c. c = NL) s")
        case True
        have "c # s = join_lines (([], CR) # lts) rest \<and> well_ended (([], CR) # lts) rest"
          using s w True c by simp
        then show ?thesis by blast
      next
        case False
        then obtain s' where s': "s = NL # s'" by (auto simp: stops_def split: list.splits)
        have "\<exists>more. lts = ([], LF) # more"
        proof (cases lts)
          case Nil
          then show ?thesis using s s' w by (auto simp: is_eol_def)
        next
          case (Cons a more)
          obtain l t where a: "a = (l, t)" by (cases a)
          have l: "l = []" using s s' w Cons a by (cases l) (auto simp: is_eol_def)
          have "t = LF" using s s' Cons a l by (cases t) auto
          then show ?thesis using Cons a l by simp
        qed
        then obtain more where m: "lts = ([], LF) # more" by blast
        have "c # s = join_lines (([], CRLF) # more) rest \<and> well_ended (([], CRLF) # more) rest"
          using s w m c by simp
        then show ?thesis by blast
      qed
    qed
  qed
qed

subsection \<open>Identifiers of the schema dbo inside a text\<close>

lemma inside_bracketI: "list_all is_word w \<Longrightarrow> inside_bracket (x @ 91 # w)"
proof -
  assume "list_all is_word w"
  then have "list_all is_word (rev w)" by (simp add: list_all_iff)
  moreover have "stops is_word (91 # rev x)" by (simp add: is_word_def is_digit_def)
  ultimately have "dropWhile is_word (rev w @ 91 # rev x) = 91 # rev x" by (rule dropWhile_run)
  then show ?thesis by (simp add: inside_bracket_def)
qed

lemma Cons_split: "c # s = p @ y # u \<Longrightarrow> p = [] \<and> y = c \<and> u = s \<or> (\<exists>p'. p = c # p' \<and> s = p' @ y # u)"
  by (cases p) auto

lemma run_split:
  assumes "w @ [e] = q @ y # u"
  shows "set q \<subseteq> set w"
proof -
  have "prefix q (w @ [e])" using assms by (simp add: prefix_def)
  moreover have "length q \<le> length w" using arg_cong[OF assms, of length] by simp
  ultimately have "prefix q w" by (auto simp: prefix_append prefix_Cons)
  then show ?thesis by (rule set_mono_prefix)
qed

lemma dbo_split:
  assumes "js ''[dbo].['' @ cap @ [93] = p @ y # u" "list_all is_word cap" "p \<noteq> []"
  shows "(is_word y \<longrightarrow> (\<exists>a w. p = a @ 91 # w \<and> list_all is_word w))
     \<and> (y = 91 \<longrightarrow> p = js ''[dbo].'')"
proof -
  have e: "91 # 100 # 98 # 111 # 93 # 46 # 91 # cap @ [93] = p @ y # u"
    using assms(1) by (simp add: js_def)
  have nw: "\<not> is_word 93" "\<not> is_word 46" "\<not> is_word 91" "is_word 100" "is_word 98" "is_word 111"
    by (simp_all add: class_defs)
  from Cons_split[OF e] assms(3) obtain p1 where p1: "p = 91 # p1" "100 # 98 # 111 # 93 # 46 # 91 # cap @ [93] = p1 @ y # u"
    by auto
  show ?thesis
  proof (cases "length p1 < 6")
    case True
    from Cons_split[OF p1(2)] consider "p1 = []" "y = 100"
      | p2 where "p1 = 100 # p2" "98 # 111 # 93 # 46 # 91 # cap @ [93] = p2 @ y # u" by auto
    then show ?thesis
    proof cases
      case 1
      have "p = [] @ 91 # []" "list_all is_word []" using p1 1 by simp_all
      then have "\<exists>a w. p = a @ 91 # w \<and> list_all is_word w" by blast
      then show ?thesis using 1 by simp
    next
      case 2
      from Cons_split[OF 2(2)] consider "p2 = []" "y = 98"
        | p3 where "p2 = 98 # p3" "111 # 93 # 46 # 91 # cap @ [93] = p3 @ y # u" by auto
      then show ?thesis
      proof cases
        case 1
        have "p = [] @ 91 # [100]" "list_all is_word [100]" using p1 2 1 nw by simp_all
        then have "\<exists>a w. p = a @ 91 # w \<and> list_all is_word w" by blast
        then show ?thesis using 1 by simp
      next
        case 2
        note q2 = \<open>p1 = 100 # p2\<close> 2
        from Cons_split[OF 2(2)] consider "p3 = []" "y = 111"
          | p4 where "p3 = 111 # p4" "93 # 46 # 91 # cap @ [93] = p4 @ y # u" by auto
        then show ?thesis
        proof cases
          case 1
          have "p = [] @ 91 # [100, 98]" "list_all is_word [100, 98]" using p1 q2 1 nw by simp_all
          then have "\<exists>a w. p = a @ 91 # w \<and> list_all is_word w" by blast
          then show ?thesis using 1 by simp
        next
          case 2
          note q3 = 2
          from Cons_split[OF 2(2)] consider "p4 = []" "y = 93"
            | p5 where "p4 = 93 # p5" "46 # 91 # cap @ [93] = p5 @ y # u" by auto
          then show ?thesis
          proof cases
            case 1 then show ?thesis using nw by simp
          next
            case 2
            note q4 = 2
            from Cons_split[OF 2(2)] consider "p5 = []" "y = 46"
              | p6 where "p5 = 46 # p6" "91 # cap @ [93] = p6 @ y # u" by auto
            then show ?thesis
            proof cases
              case 1 then show ?thesis using nw by simp
            next
              case 2
              from Cons_split[OF 2(2)] consider "p6 = []" "y = 91"
                | p7 where "p6 = 91 # p7" by auto
              then show ?thesis
              proof cases
                case 1
                then show ?thesis using p1 q2 q3 q4 2 nw by (simp add: js_def)
              next
                case 2
                then show ?thesis using True q2 q3 q4 \<open>p5 = 46 # p6\<close> by simp
              qed
            qed
          qed
        qed
      qed
    qed
  next
    case False
    have "p1 = take 6 (p1 @ y # u) @ drop 6 p1" using False by simp
    then obtain q where q: "p1 = 100 # 98 # 111 # 93 # 46 # 91 # q"
      unfolding p1(2)[symmetric] by simp
    with p1(2) have "cap @ [93] = q @ y # u" by simp
    from run_split[OF this] assms(2) have w: "list_all is_word q" by (auto simp: list_all_iff)
    have "p = [91, 100, 98, 111, 93, 46] @ 91 # q" using p1 q by simp
    with w have 1: "\<exists>a w. p = a @ 91 # w \<and> list_all is_word w" by blast
    have "y \<in> set (cap @ [93])" using \<open>cap @ [93] = q @ y # u\<close> by simp
    then have "y \<noteq> 91" using assms(2) nw by (auto simp: list_all_iff)
    with 1 show ?thesis by simp
  qed
qed

lemma dbo_local:
  assumes "p \<noteq> []" "suffix p pre" "\<not> suffix (js ''[dbo].'') pre" "\<not> inside_bracket pre"
    and "y = 91 \<or> is_word y"
  shows "rx_dbo pw (p @ y # ys) = rx_dbo pw p"
proof -
  have 1: "rx_dbo pw p = Some (n, cap)" if a: "rx_dbo pw (p @ y # ys) = Some (n, cap)" for n cap
  proof -
    from a[unfolded rx_dbo_iff] obtain rest where
      e: "p @ y # ys = (js ''[dbo].['' @ cap @ [93]) @ rest"
      and k: "cap \<noteq> []" "list_all is_word cap" "n = length cap + 8"
      by auto
    let ?m = "js ''[dbo].['' @ cap @ [93]"
    have "(\<exists>u. p = ?m @ u) \<or> (\<exists>u'. ?m = p @ y # u')"
    proof (cases "length ?m \<le> length p")
      case True
      from append_longer[OF e True] show ?thesis by blast
    next
      case False
      then have "length p \<le> length ?m" by simp
      from append_longer[OF e[symmetric] this] obtain z where z: "?m = p @ z" "y # ys = z @ rest"
        by blast
      with False have "z \<noteq> []" by auto
      with z(2) obtain u' where "z = y # u'" by (cases z) auto
      with z(1) show ?thesis by blast
    qed
    then consider u where "p = ?m @ u" | u' where "?m = p @ y # u'" by blast
    then show ?thesis
    proof cases
      case 1
      then have "p = js ''[dbo].['' @ cap @ 93 # u" by simp
      then show ?thesis using rx_dbo_match[OF k(1,2), of pw u] k(3) by simp
    next
      case 2
      then have m: "?m = p @ y # u'" .
      from assms(2) obtain x where x: "pre = x @ p" by (auto simp: suffix_def)
      from dbo_split[OF m k(2) assms(1)] assms(5)
      consider a w where "p = a @ 91 # w" "list_all is_word w" | "p = js ''[dbo].''" by blast
      then show ?thesis
      proof cases
        case 1
        then have "inside_bracket ((x @ a) @ 91 # w)" by (intro inside_bracketI)
        with assms(4) x 1(1) show ?thesis by simp
      next
        case 2
        with assms(2,3) show ?thesis by simp
      qed
    qed
  qed
  have 2: "rx_dbo pw (p @ y # ys) = Some (n, cap)" if a: "rx_dbo pw p = Some (n, cap)" for n cap
  proof -
    from a[unfolded rx_dbo_iff] obtain rest where
      e: "p = js ''[dbo].['' @ cap @ 93 # rest"
      and k: "cap \<noteq> []" "list_all is_word cap" "n = length cap + 8"
      by auto
    from rx_dbo_match[OF k(1,2), of pw "rest @ y # ys"] e k(3) show ?thesis by simp
  qed
  show ?thesis
  proof (cases "rx_dbo pw p")
    case None
    show ?thesis
    proof (cases "rx_dbo pw (p @ y # ys)")
      case (Some m)
      with 1[of "fst m" "snd m"] None show ?thesis by simp
    qed (simp add: None)
  next
    case (Some m)
    with 2[of "fst m" "snd m"] show ?thesis by simp
  qed
qed

lemma dbo_cut:
  assumes "\<not> suffix (js ''[dbo].'') pre" "\<not> inside_bracket pre" "y = 91 \<or> is_word y"
  shows "js_replace rx_dbo tpl pw (pre @ y # ys) =
     js_replace rx_dbo tpl pw pre @ js_replace rx_dbo tpl False (y # ys)"
proof -
  have "js_replace rx_dbo tpl pw (pre @ y # ys) =
     js_replace rx_dbo tpl pw pre @ js_replace rx_dbo tpl (pw_after pw pre) (y # ys)"
    by (rule js_replace_cut[OF progresses_sheds[OF sheds_dbo]]) (rule dbo_local[OF _ _ assms])
  also have "js_replace rx_dbo tpl (pw_after pw pre) (y # ys) = js_replace rx_dbo tpl False (y # ys)"
    by (rule pw_indep) (rule rx_dbo_pw)
  finally show ?thesis .
qed

lemma dbo_in_context:
  assumes "name \<noteq> []" "list_all is_word name"
    and "\<not> suffix (js ''[dbo].'') pre" "\<not> inside_bracket pre"
  shows "js_replace rx_dbo [Group1] False (pre @ js ''[dbo].['' @ name @ js '']'' @ post) =
     js_replace rx_dbo [Group1] False (pre @ name @ post)"
proof -
  from assms(1) obtain n0 ns where n: "name = n0 # ns" by (cases name) auto
  with assms(2) have w: "is_word n0" by simp
  have o: "js ''[dbo].['' @ name @ js '']'' @ post = 91 # js ''dbo].['' @ name @ js '']'' @ post"
    by (simp add: js_def)
  have "js_replace rx_dbo [Group1] False (pre @ js ''[dbo].['' @ name @ js '']'' @ post) =
      js_replace rx_dbo [Group1] False pre
        @ js_replace rx_dbo [Group1] False (js ''[dbo].['' @ name @ js '']'' @ post)"
    unfolding o by (rule dbo_cut[OF assms(3,4)]) simp
  also have "\<dots> = js_replace rx_dbo [Group1] False pre @ name @ js_replace rx_dbo [Group1] False post"
    by (simp only: replace_dbo_occurrence[OF assms(1,2)])
  finally have l: "js_replace rx_dbo [Group1] False (pre @ js ''[dbo].['' @ name @ js '']'' @ post) =
      js_replace rx_dbo [Group1] False pre @ name @ js_replace rx_dbo [Group1] False post" .
  have "js_replace rx_dbo [Group1] False (pre @ name @ post) =
      js_replace rx_dbo [Group1] False pre @ js_replace rx_dbo [Group1] False (name @ post)"
    unfolding n append_Cons by (rule dbo_cut[OF assms(3,4)]) (simp add: w)
  also have "js_replace rx_dbo [Group1] False (name @ post) =
      name @ js_replace rx_dbo [Group1] (pw_after False name) post"
    by (rule skip_prefix[OF starts_in_dbo]) (use word_text(1)[OF assms(2)] in simp)
  also have "js_replace rx_dbo [Group1] (pw_after False name) post = js_replace rx_dbo [Group1] False post"
    by (rule pw_indep) (rule rx_dbo_pw)
  finally show ?thesis using l by simp
qed

subsection \<open>Identifiers of another schema\<close>

lemma replace_bracket_occurrence:
  assumes "cap \<noteq> []" "93 \<notin> set cap"
  shows "js_replace rx_bracket [Group1] pw (91 # cap @ 93 # rest)
           = cap @ js_replace rx_bracket [Group1] False rest"
proof -
  let ?m = "91 # cap @ [93]"
  have "rx_bracket pw (?m @ rest) = Some (length ?m, cap)"
    using rx_bracket_match[OF assms, of pw rest] by simp
  from js_replace_match[of rx_bracket pw ?m rest cap "[Group1]", OF this]
  have "js_replace rx_bracket [Group1] pw (?m @ rest) = cap @ js_replace rx_bracket [Group1] (is_word 93) rest"
    by simp
  also have "js_replace rx_bracket [Group1] (is_word 93) rest = js_replace rx_bracket [Group1] False rest"
    by (rule pw_indep) (rule rx_bracket_pw)
  finally show ?thesis by simp
qed

lemma function_rules_id:
  assumes "40 \<notin> set s" "set s \<inter> {c. is_space c} = {}"
  shows "js_replace rx_top [Lit (js ''LIMIT ''), Group1] False
      (js_replace (rx_blit (js ''ISNULL('')) [Lit (js ''IFNULL('')] False
       (js_replace (rx_blit (js ''LEN('')) [Lit (js ''LENGTH('')] False
        (js_replace (rx_lit (js ''NEWID()'')) [Lit (js ''UUID()'')] False
         (js_replace (rx_lit (js ''GETUTCDATE()'')) [Lit (js ''UTC_TIMESTAMP()'')] False
          (js_replace (rx_lit (js ''GETDATE()'')) [Lit (js ''NOW()'')] False s))))) = s"
proof -
  have "js_replace (rx_lit p) tpl pw s = s" if "40 \<in> set p" for p tpl pw
    by (rule js_replace_id, rule needs_no_match[OF needs_lit[OF that]]) (simp add: assms)
  moreover have "js_replace (rx_blit p) tpl pw s = s" if "40 \<in> set p" for p tpl pw
    by (rule js_replace_id, rule needs_no_match[OF needs_blit[OF that]]) (simp add: assms)
  moreover have "js_replace rx_top tpl pw s = s" for tpl pw
    by (rule js_replace_id, rule needs_no_match[OF needs_top]) (rule assms)
  moreover have "40 \<in> set (js ''GETDATE()'')" "40 \<in> set (js ''GETUTCDATE()'')" "40 \<in> set (js ''NEWID()'')"
    "40 \<in> set (js ''LEN('')" "40 \<in> set (js ''ISNULL('')"
    by (simp_all add: js_def)
  ultimately show ?thesis by simp
qed

lemma word_run_eq:
  assumes "w @ 93 # r = v @ 93 # r'" "list_all is_word w" "list_all is_word v"
  shows "w = v \<and> r = r'"
proof -
  have s: "stops is_word (93 # r)" "stops is_word (93 # r')" by (simp_all add: class_defs)
  have "takeWhile is_word (w @ 93 # r) = w" by (rule takeWhile_run[OF assms(2) s(1)])
  moreover have "takeWhile is_word (v @ 93 # r') = v" by (rule takeWhile_run[OF assms(3) s(2)])
  ultimately have "w = v" using assms(1) by simp
  with assms(1) show ?thesis by simp
qed

lemma other_schema_dbo_rule:
  assumes "list_all is_word schema" "schema \<noteq> js ''dbo''" "list_all is_word name"
  shows "js_replace rx_dbo tpl pw (91 # schema @ js ''].['' @ name @ js '']'')
     = 91 # schema @ js ''].['' @ name @ js '']''"
proof -
  have A: "rx_dbo pw' (91 # schema @ 93 # 46 # 91 # name @ [93]) = None" for pw'
  proof (cases "rx_dbo pw' (91 # schema @ 93 # 46 # 91 # name @ [93])")
    case (Some m)
    obtain n cap where "m = (n, cap)" by (cases m)
    with Some[unfolded this rx_dbo_iff] obtain rest where
      "91 # schema @ 93 # 46 # 91 # name @ [93] = js ''[dbo].['' @ cap @ 93 # rest" by blast
    then have "schema @ 93 # (46 # 91 # name @ [93]) = js ''dbo'' @ 93 # (46 # 91 # cap @ 93 # rest)"
      by (simp add: js_def)
    from word_run_eq[OF this assms(1)] assms(2) show ?thesis by (simp add: js_def class_defs)
  qed simp
  have B: "rx_dbo pw' (91 # name @ [93]) = None" for pw'
  proof (cases "rx_dbo pw' (91 # name @ [93])")
    case (Some m)
    obtain n cap where "m = (n, cap)" by (cases m)
    with Some[unfolded this rx_dbo_iff] obtain rest where
      "91 # name @ [93] = js ''[dbo].['' @ cap @ 93 # rest" by blast
    then have "name @ 93 # [] = js ''dbo'' @ 93 # (46 # 91 # cap @ 93 # rest)"
      by (simp add: js_def)
    from word_run_eq[OF this assms(3)] show ?thesis by (simp add: js_def class_defs)
  qed simp
  have n1: "set (schema @ [93, 46]) \<inter> {91} = {}" "91 \<notin> set (name @ [93])"
    using word_text(1)[OF assms(1)] word_text(1)[OF assms(3)] by simp_all
  have "js_replace rx_dbo tpl pw (91 # schema @ 93 # 46 # 91 # name @ [93])
      = 91 # js_replace rx_dbo tpl (is_word 91) ((schema @ [93, 46]) @ 91 # name @ [93])"
    using A[of pw] by simp
  also have "js_replace rx_dbo tpl (is_word 91) ((schema @ [93, 46]) @ 91 # name @ [93])
      = (schema @ [93, 46]) @ js_replace rx_dbo tpl (pw_after (is_word 91) (schema @ [93, 46])) (91 # name @ [93])"
    by (rule skip_prefix[OF starts_in_dbo n1(1)])
  also have "js_replace rx_dbo tpl (pw_after (is_word 91) (schema @ [93, 46])) (91 # name @ [93])
      = 91 # js_replace rx_dbo tpl (is_word 91) (name @ [93])"
    using B by simp
  also have "js_replace rx_dbo tpl (is_word 91) (name @ [93]) = name @ [93]"
    by (rule js_replace_id[OF no_match_dbo[OF n1(2)]])
  finally show ?thesis by (simp add: js_def)
qed

lemma other_schema_bracket_rule:
  assumes "schema \<noteq> []" "list_all is_word schema" "name \<noteq> []" "list_all is_word name"
  shows "js_replace rx_bracket [Group1] pw (91 # schema @ js ''].['' @ name @ js '']'')
     = schema @ 46 # name"
proof -
  have n: "93 \<notin> set schema" "93 \<notin> set name"
    using assms(2,4) by (auto simp: list_all_iff class_defs)
  have d: "rx_bracket False (46 # 91 # name @ [93]) = None"
    by (simp add: rx_bracket_def)
  have "js_replace rx_bracket [Group1] pw (91 # schema @ 93 # 46 # 91 # name @ 93 # [])
      = schema @ js_replace rx_bracket [Group1] False (46 # 91 # name @ 93 # [])"
    by (rule replace_bracket_occurrence[OF assms(1) n(1)])
  also have "js_replace rx_bracket [Group1] False (46 # 91 # name @ 93 # [])
      = 46 # js_replace rx_bracket [Group1] (is_word 46) (91 # name @ 93 # [])"
    using d by simp
  also have "js_replace rx_bracket [Group1] (is_word 46) (91 # name @ 93 # [])
      = name @ js_replace rx_bracket [Group1] False []"
    by (rule replace_bracket_occurrence[OF assms(3) n(2)])
  finally show ?thesis by (simp add: js_def)
qed

lemma other_schema:
  assumes "schema \<noteq> []" "list_all is_word schema" "schema \<noteq> js ''dbo''"
    and "name \<noteq> []" "list_all is_word name"
  shows "apply_conversions (91 # schema @ js ''].['' @ name @ js '']'') = schema @ 46 # name"
proof -
  have s: "40 \<notin> set (schema @ 46 # name)" "set (schema @ 46 # name) \<inter> {c. is_space c} = {}"
    using word_text(2,3)[OF assms(2)] word_text(2,3)[OF assms(5)] by (auto simp: is_space_def)
  show ?thesis
    unfolding apply_conversions_unfold other_schema_dbo_rule[OF assms(2,3,5)]
      other_schema_bracket_rule[OF assms(1,2,4,5)]
    by (rule function_rules_id[OF s])
qed

lemma dbo_alone:
  assumes "name \<noteq> []" "list_all is_word name"
  shows "apply_conversions (js ''[dbo].['' @ name @ js '']'') = name"
proof -
  have "js_replace rx_dbo [Group1] False (js ''[dbo].['' @ name @ js '']'') = name"
    using replace_dbo_occurrence[OF assms, of False "[]"] by simp
  moreover have "js_replace rx_bracket [Group1] False name = name"
    by (simp add: js_replace_id no_match_bracket word_text[OF assms(2)])
  ultimately show ?thesis
    unfolding apply_conversions_unfold using function_rules_id[OF word_text(2,3)[OF assms(2)]]
    by simp
qed


section \<open>A second pass of the rules\<close>

text \<open>
  Claim C1, as the code has it. A second pass of the eight rules leaves the output of the
  first pass unchanged exactly when that output holds no bracketed identifier (an opening
  bracket, one or more code units other than the closing bracket, and a closing bracket).
  The patterns of the rules 3 to 8 never match in the output of a pass, whatever the input.
\<close>

theorem second_pass_fixed_iff:
  "(apply_conversions (apply_conversions text) = apply_conversions text
      \<longleftrightarrow> \<not> has_match rx_bracket False (apply_conversions text))
   \<and> list_all (\<lambda>conv. \<not> has_match (pattern conv) False (apply_conversions text))
        (drop 2 conversions)"
proof -
  note c = later_rules_clean[OF apply_conversions_unfold[of "text"]]
  have "apply_conversions (apply_conversions text) = apply_conversions text
      \<longleftrightarrow> \<not> has_match rx_bracket False (apply_conversions text)"
    using second_pass_keeps[of "text"] second_pass_changes[of "apply_conversions text"] by blast
  then show ?thesis
    by (simp add: conversions_def c)
qed

theorem second_pass_fixed_witness:
  "apply_conversions (apply_conversions (js ''SELECT TOP 10 [Id] FROM [dbo].[Users]''))
     = apply_conversions (js ''SELECT TOP 10 [Id] FROM [dbo].[Users]'')"
proof -
  have a: "apply_conversions (js ''SELECT TOP 10 [Id] FROM [dbo].[Users]'') = js ''SELECT LIMIT 10 Id FROM Users''"
    by (simp add: eval_defs)
  have "\<not> has_match rx_bracket False (apply_conversions (js ''SELECT TOP 10 [Id] FROM [dbo].[Users]''))"
    unfolding a by (rule no_match_bracket) (simp add: js_def)
  with second_pass_fixed_iff[of "js ''SELECT TOP 10 [Id] FROM [dbo].[Users]''"] show ?thesis
    by blast
qed

text \<open>
  The claim as stated, for every text, fails: each pass takes one level off nested brackets.
\<close>

theorem nested_brackets_counterexample:
  "apply_conversions (apply_conversions (js ''[[a]]'')) \<noteq> apply_conversions (js ''[[a]]'')"
proof -
  have "apply_conversions (js ''[[a]]'') = js ''[a]''" "apply_conversions (js ''[a]'') = js ''a''"
    by (simp_all add: eval_defs)
  then show ?thesis by (simp add: js_def)
qed

section \<open>Buffered and streaming conversion of the same text\<close>

text \<open>
  Claim C2, as the code has it. When no match of a rule, found while the rules are applied
  in turn to the whole text, holds a line terminator (a CR or an LF), the text the
  streaming conversion writes after its header is the text the buffered conversion puts
  after its header, with every line terminator (CR LF, a CR alone, LF) written as a line
  feed and with one more line feed when the input is not empty and does not end with a
  terminator. For an input whose only line terminator is the line feed the two bodies are
  the same up to that last line feed. (The size of the input plays no part: the two
  functions are compared on every text.)
\<close>

theorem mode_equivalence:
  assumes "\<not> crosses text conversions"
  shows "convertToMySQL now text = header now @ apply_conversions text
     \<and> concat (written (stream_run now' text)) =
         header now' @ norm_eol (apply_conversions text)
           @ (if text = [] \<or> is_eol (last text) then [] else [NL])
     \<and> (\<not> list_ex (\<lambda>c. is_eol c \<and> c \<noteq> NL) text \<longrightarrow>
          norm_eol (apply_conversions text) = apply_conversions text)"
proof -
  have p: "apply_conversions text = per_line apply_conversions [] text"
    using fold_per_line[OF conversions_line_rules assms]
    by (simp add: apply_conversions_def[abs_def])
  have "concat (map (\<lambda>l. apply_conversions l @ [NL]) (rl_lines [] text)) =
      norm_eol (per_line apply_conversions [] text)
        @ (if [] @ text = [] \<or> is_eol (last ([] @ text)) then [] else [NL])"
    by (rule rl_lines_per_line[OF line_fun_conversions]) simp
  then have s: "concat (written (stream_run now' text)) =
         header now' @ norm_eol (apply_conversions text)
           @ (if text = [] \<or> is_eol (last text) then [] else [NL])"
    unfolding p[symmetric] by (simp add: stream_run_eq)
  have n: "norm_eol (apply_conversions text) = apply_conversions text"
    if "\<not> list_ex (\<lambda>c. is_eol c \<and> c \<noteq> NL) text"
    using norm_eol_per_line[OF line_fun_conversions _ that, of "[]"] p by simp
  show ?thesis using s n by (simp add: convertToMySQL_def)
qed

theorem mode_equivalence_witness:
  "concat (written (stream_run (js ''T'') (js ''SELECT [Id]'' @ [NL] @ js ''TOP 5''))) =
     header (js ''T'') @ js ''SELECT Id'' @ [NL] @ js ''LIMIT 5'' @ [NL]
   \<and> convertToMySQL (js ''T'') (js ''SELECT [Id]'' @ [NL] @ js ''TOP 5'') =
     header (js ''T'') @ js ''SELECT Id'' @ [NL] @ js ''LIMIT 5''
   \<and> concat (written (stream_run (js ''T'') (js ''[a]'' @ [13, NL] @ js ''TOP'' @ [8232] @ js ''5'' @ [13]))) =
     header (js ''T'') @ js ''a'' @ [NL] @ js ''LIMIT 5'' @ [NL]
   \<and> convertToMySQL (js ''T'') (js ''[a]'' @ [13, NL] @ js ''TOP'' @ [8232] @ js ''5'' @ [13]) =
     header (js ''T'') @ js ''a'' @ [13, NL] @ js ''LIMIT 5'' @ [13]"
proof -
  let ?t = "js ''SELECT [Id]'' @ [NL] @ js ''TOP 5''"
  let ?u = "js ''[a]'' @ [13, NL] @ js ''TOP'' @ [8232] @ js ''5'' @ [13]"
  have c: "\<not> crosses ?t conversions" "\<not> crosses ?u conversions"
    by (simp_all add: conversions_def apply_rule_def js_def rx_defs class_defs is_eol_def)
  have a: "apply_conversions ?t = js ''SELECT Id'' @ [NL] @ js ''LIMIT 5''"
    "apply_conversions ?u = js ''a'' @ [13, NL] @ js ''LIMIT 5'' @ [13]"
    by (simp_all add: eval_defs)
  have l: "\<not> list_ex (\<lambda>c. is_eol c \<and> c \<noteq> NL) ?t" "?t \<noteq> []" "\<not> is_eol (last ?t)"
    "?u \<noteq> []" "is_eol (last ?u)"
    by (simp_all add: js_def is_eol_def)
  have n: "norm_eol (js ''a'' @ [13, NL] @ js ''LIMIT 5'' @ [13]) = js ''a'' @ [NL] @ js ''LIMIT 5'' @ [NL]"
    by (simp add: js_def is_eol_def)
  from mode_equivalence[OF c(1), of "js ''T''" "js ''T''"] mode_equivalence[OF c(2), of "js ''T''" "js ''T''"] l
  show ?thesis
    unfolding a n by simp
qed

text \<open>
  The claim as stated fails where a match holds a line feed: the white space between
  \<^verbatim>\<open>TOP\<close> and the number can be a line feed, which the buffered conversion replaces
  together with the keyword, while the streaming conversion sees two lines without match.
\<close>

theorem match_across_lines_counterexample:
  "convertToMySQL (js ''T'') (js ''TOP'' @ NL # js ''10'') = header (js ''T'') @ js ''LIMIT 10''
   \<and> concat (written (stream_run (js ''T'') (js ''TOP'' @ NL # js ''10''))) =
       header (js ''T'') @ js ''TOP'' @ NL # js ''10'' @ [NL]"
proof -
  have a: "apply_conversions (js ''TOP'' @ NL # js ''10'') = js ''LIMIT 10''"
    "apply_conversions (js ''TOP'') = js ''TOP''" "apply_conversions (js ''10'') = js ''10''"
    by (simp_all add: eval_defs)
  have l: "rl_lines [] (js ''TOP'' @ NL # js ''10'') = [js ''TOP'', js ''10'']"
    by (simp add: js_def)
  show ?thesis
    by (simp add: convertToMySQL_def stream_run_eq a l)
qed


section \<open>Schema-qualified identifiers\<close>

text \<open>
  Claim C3, as the code has it. The first rule names the schema \<^verbatim>\<open>dbo\<close>, and a name is
  one or more word characters. The text \<^verbatim>\<open>[dbo].[name]\<close> alone is converted to the bare
  name. Inside a text, before which the text does not end with \<^verbatim>\<open>[dbo].\<close> nor with an
  opening bracket followed by word characters only, the identifier is converted as its
  bare name is: the output for \<^verbatim>\<open>pre [dbo].[name] post\<close> is the output for
  \<^verbatim>\<open>pre name post\<close>, whatever \<^verbatim>\<open>post\<close> is. With a schema of word characters other than
  \<^verbatim>\<open>dbo\<close>, the text \<^verbatim>\<open>[schema].[name]\<close> alone becomes \<^verbatim>\<open>schema.name\<close>: the brackets go
  and the schema stays.
\<close>

theorem dbo_identifier_bare_name:
  assumes "name \<noteq> []" "list_all is_word name"
  shows "apply_conversions (js ''[dbo].['' @ name @ js '']'') = name
     \<and> (\<not> suffix (js ''[dbo].'') pre \<and> \<not> inside_bracket pre \<longrightarrow>
          apply_conversions (pre @ js ''[dbo].['' @ name @ js '']'' @ post)
            = apply_conversions (pre @ name @ post))
     \<and> (schema \<noteq> [] \<and> list_all is_word schema \<and> schema \<noteq> js ''dbo'' \<longrightarrow>
          apply_conversions (js ''['' @ schema @ js ''].['' @ name @ js '']'')
            = schema @ js ''.'' @ name)"
proof (intro conjI impI)
  show "apply_conversions (js ''[dbo].['' @ name @ js '']'') = name"
    by (rule dbo_alone[OF assms])
next
  assume "\<not> suffix (js ''[dbo].'') pre \<and> \<not> inside_bracket pre"
  then have "js_replace rx_dbo [Group1] False (pre @ js ''[dbo].['' @ name @ js '']'' @ post) =
     js_replace rx_dbo [Group1] False (pre @ name @ post)"
    using dbo_in_context[OF assms] by blast
  then show "apply_conversions (pre @ js ''[dbo].['' @ name @ js '']'' @ post)
            = apply_conversions (pre @ name @ post)"
    unfolding apply_conversions_unfold by (rule arg_cong)
next
  assume "schema \<noteq> [] \<and> list_all is_word schema \<and> schema \<noteq> js ''dbo''"
  then have "apply_conversions (91 # schema @ js ''].['' @ name @ js '']'') = schema @ 46 # name"
    using other_schema[OF _ _ _ assms] by blast
  then show "apply_conversions (js ''['' @ schema @ js ''].['' @ name @ js '']'')
            = schema @ js ''.'' @ name"
    by (simp add: js_def)
qed

theorem dbo_identifier_bare_name_witness:
  "apply_conversions (js ''[dbo].[Users]'') = js ''Users''
     \<and> apply_conversions (js ''SELECT TOP 10 [Id] FROM [dbo].[Users]'')
          = js ''SELECT LIMIT 10 Id FROM Users''
     \<and> apply_conversions (js ''[sales].[Users]'') = js ''sales.Users''"
proof -
  have a: "js ''Users'' \<noteq> []" "list_all is_word (js ''Users'')"
    by (simp_all add: js_def class_defs)
  have p: "\<not> suffix (js ''[dbo].'') (js ''SELECT TOP 10 [Id] FROM '')
      \<and> \<not> inside_bracket (js ''SELECT TOP 10 [Id] FROM '')"
    by (simp add: js_def inside_bracket_def class_defs suffix_to_prefix)
  have s: "js ''sales'' \<noteq> [] \<and> list_all is_word (js ''sales'') \<and> js ''sales'' \<noteq> js ''dbo''"
    by (simp add: js_def class_defs)
  have b: "apply_conversions (js ''SELECT TOP 10 [Id] FROM Users'')
          = js ''SELECT LIMIT 10 Id FROM Users''"
    by (simp add: eval_defs)
  from dbo_identifier_bare_name[OF a, of "js ''SELECT TOP 10 [Id] FROM ''" "[]" "js ''sales''"] p s b
  show ?thesis by (simp add: js_def)
qed

text \<open>
  The claim as stated fails. For another schema: the schema \<^verbatim>\<open>sales\<close> stays in the
  output. For a name that is not of word characters only: the schema \<^verbatim>\<open>dbo\<close> stays in
  the output. For the schema \<^verbatim>\<open>dbo\<close> after \<^verbatim>\<open>[dbo].\<close>: the first rule takes
  \<^verbatim>\<open>[dbo].[dbo]\<close> and the schema stays in the output. For the schema \<^verbatim>\<open>dbo\<close> after an
  opening bracket: that bracket stays in the output.
\<close>

theorem other_schema_counterexample:
  "apply_conversions (js ''[sales].[Users]'') = js ''sales.Users''
   \<and> apply_conversions (js ''[dbo].[my table]'') = js ''dbo.my table''
   \<and> apply_conversions (js ''[dbo].[dbo].[x]'') = js ''dbo.x''
   \<and> apply_conversions (js ''[[dbo].[x]'') = js ''[x''"
  by (simp add: eval_defs)


section \<open>Case sensitivity of the rules\<close>

text \<open>
  Claim C4, as the code has it. The row-limiting keyword is recognised in any case (here in
  every mix of cases, lowercase included): the keyword, white space and an integer alone
  become \<^verbatim>\<open>LIMIT\<close> and the integer. For every input: when the text the two bracket rules
  leave holds the keyword, white space and the integer with no word character directly
  before the keyword or after the integer, the output holds \<^verbatim>\<open>LIMIT\<close> and the integer in
  their place, between what the rules after the bracket rules make of the text before and
  of the text after. The current-timestamp call is recognised in upper case only:
  \<^verbatim>\<open>getdate()\<close> alone is left unchanged; the output for every input that holds
  \<^verbatim>\<open>getdate()\<close> holds it too; and when the text the two bracket rules leave holds
  \<^verbatim>\<open>getdate()\<close> with no word character directly before it, the output holds it in its
  place, between what the rules after the bracket rules make of the text before and of the
  text after. \<^verbatim>\<open>GETDATE()\<close> alone becomes \<^verbatim>\<open>NOW()\<close>, its rule replaces it wherever it
  stands, and changes no text without an upper-case G.
\<close>

theorem keyword_case_asymmetry:
  assumes "ci 84 c1" "ci 79 c2" "ci 80 c3"
    and "ws \<noteq> []" "list_all is_space ws" "ds \<noteq> []" "list_all is_digit ds"
  shows "apply_conversions (c1 # c2 # c3 # ws @ ds) = js ''LIMIT '' @ ds
     \<and> (foldl apply_rule text (take 2 conversions) = pre @ c1 # c2 # c3 # ws @ ds @ post
          \<and> (pre = [] \<or> \<not> is_word (last pre)) \<and> stops is_word post \<longrightarrow>
        apply_conversions text =
          foldl apply_rule pre (drop 2 conversions) @ js ''LIMIT '' @ ds
            @ foldl (apply_after True) post (drop 2 conversions))
     \<and> apply_conversions (js ''getdate()'') = js ''getdate()''
     \<and> (sublist (js ''getdate()'') u \<longrightarrow> sublist (js ''getdate()'') (apply_conversions u))
     \<and> (foldl apply_rule text' (take 2 conversions) = pre' @ js ''getdate()'' @ post'
          \<and> (pre' = [] \<or> \<not> is_word (last pre')) \<longrightarrow>
        apply_conversions text' =
          foldl apply_rule pre' (drop 2 conversions) @ js ''getdate()''
            @ foldl apply_rule post' (drop 2 conversions))
     \<and> apply_conversions (js ''GETDATE()'') = js ''NOW()''
     \<and> apply_rule (a @ js ''GETDATE()'' @ b) (conversions ! 2) =
          apply_rule a (conversions ! 2) @ js ''NOW()'' @ apply_rule b (conversions ! 2)
     \<and> (71 \<notin> set t \<longrightarrow> apply_rule t (conversions ! 2) = t)"
proof (intro conjI impI)
  let ?t = "c1 # c2 # c3 # ws @ ds"
  have a: "x \<in> set ?t \<Longrightarrow> x \<notin> {91, 71, 78, 76, 73}" for x
    using assms by (auto simp: class_defs list_all_iff)
  have "apply_conversions ?t = js_replace rx_top [Lit (js ''LIMIT ''), Group1] False ?t"
    by (rule first_seven_id) (use a in blast)+
  also have "rx_top False (c1 # c2 # c3 # ws @ ds @ []) = Some (3 + length ws + length ds, ds)"
    by (rule rx_top_match) (use assms in simp_all)
  then have "rx_top False (?t @ []) = Some (length ?t, ds)"
    by simp
  then have "js_replace rx_top [Lit (js ''LIMIT ''), Group1] False (?t @ []) = expand [Lit (js ''LIMIT ''), Group1] ds @ js_replace rx_top [Lit (js ''LIMIT ''), Group1] (is_word (last ?t)) []"
    by (rule js_replace_match) simp
  then have "js_replace rx_top [Lit (js ''LIMIT ''), Group1] False ?t = js ''LIMIT '' @ ds"
    by simp
  finally show "apply_conversions ?t = js ''LIMIT '' @ ds" .
next
  assume h: "foldl apply_rule text (take 2 conversions) = pre @ c1 # c2 # c3 # ws @ ds @ post
          \<and> (pre = [] \<or> \<not> is_word (last pre)) \<and> stops is_word post"
  then have "pre = [] \<or> \<not> is_word (last pre)" "stops is_word post" by blast+
  from keyword_through_rules[OF assms this] h
  show "apply_conversions text =
          foldl apply_rule pre (drop 2 conversions) @ js ''LIMIT '' @ ds
            @ foldl (apply_after True) post (drop 2 conversions)"
    by (simp only: apply_conversions_split[of "text"])
next
  have s: "set (js ''getdate()'') = {103, 101, 116, 100, 97, 40, 41}"
    by (auto simp: js_def)
  have "apply_conversions (js ''getdate()'') = js_replace rx_top [Lit (js ''LIMIT ''), Group1] False (js ''getdate()'')"
    by (rule first_seven_id) (simp_all add: s)
  also have "\<dots> = js ''getdate()''"
    by (simp add: js_def rx_top_def ci_def)
  finally show "apply_conversions (js ''getdate()'') = js ''getdate()''" .
next
  assume "sublist (js ''getdate()'') u"
  then show "sublist (js ''getdate()'') (apply_conversions u)"
    by (rule lowercase_call_kept)
next
  assume h: "foldl apply_rule text' (take 2 conversions) = pre' @ js ''getdate()'' @ post'
          \<and> (pre' = [] \<or> \<not> is_word (last pre'))"
  then have "pre' = [] \<or> \<not> is_word (last pre')" by blast
  from lowercase_call_through_rules[OF this] h
  show "apply_conversions text' =
          foldl apply_rule pre' (drop 2 conversions) @ js ''getdate()''
            @ foldl apply_rule post' (drop 2 conversions)"
    by (simp only: apply_conversions_split[of "text'"])
next
  show "apply_conversions (js ''GETDATE()'') = js ''NOW()''"
    by (simp add: eval_defs)
next
  show "apply_rule (a @ js ''GETDATE()'' @ b) (conversions ! 2) =
          apply_rule a (conversions ! 2) @ js ''NOW()'' @ apply_rule b (conversions ! 2)"
    using uppercase_call_rule[of a b] by (simp add: apply_rule_def conversions_def)
next
  assume "71 \<notin> set t"
  then show "apply_rule t (conversions ! 2) = t"
    by (simp add: apply_rule_def conversions_def js_literals js_replace_id no_match_lit)
qed

theorem keyword_case_asymmetry_witness:
  "apply_conversions (js ''top 10'') = js ''LIMIT 10''
     \<and> apply_conversions (js ''select top 10 [Id]'') = js ''select LIMIT 10 Id''
     \<and> apply_conversions (js ''getdate()'') = js ''getdate()''
     \<and> sublist (js ''getdate()'') (apply_conversions (js ''[getdate()]''))
     \<and> apply_conversions (js ''select [x], getdate()'') = js ''select x, getdate()''
     \<and> apply_conversions (js ''GETDATE()'') = js ''NOW()''
     \<and> apply_rule (js ''select GETDATE()'') (conversions ! 2) = js ''select NOW()''
     \<and> apply_rule (js ''select getdate()'') (conversions ! 2) = js ''select getdate()''"
proof -
  have k: "ci 84 116" "ci 79 111" "ci 80 112" "[32] \<noteq> []" "list_all is_space [32]"
    "[49, 48] \<noteq> []" "list_all is_digit [49, 48]"
    by (simp_all add: class_defs)
  have h1: "foldl apply_rule (js ''select top 10 [Id]'') (take 2 conversions)
        = js ''select '' @ 116 # 111 # 112 # [32] @ [49, 48] @ js '' Id''
      \<and> (js ''select '' = [] \<or> \<not> is_word (last (js ''select ''))) \<and> stops is_word (js '' Id'')"
    by (simp add: conversions_def apply_rule_def js_def rx_defs class_defs)
  have h2: "foldl apply_rule (js ''select [x], getdate()'') (take 2 conversions)
        = js ''select x, '' @ js ''getdate()'' @ []
      \<and> (js ''select x, '' = [] \<or> \<not> is_word (last (js ''select x, '')))"
    by (simp add: conversions_def apply_rule_def js_def rx_defs class_defs)
  have h3: "71 \<notin> set (js ''select getdate()'')"
    by (simp add: js_def)
  have "js ''[getdate()]'' = [91] @ js ''getdate()'' @ [93]"
    by (simp add: js_def)
  then have h4: "sublist (js ''getdate()'') (js ''[getdate()]'')"
    by (simp only: sublist_appendI)
  have c: "foldl apply_rule (js ''select '') (drop 2 conversions) = js ''select ''"
    "foldl (apply_after True) (js '' Id'') (drop 2 conversions) = js '' Id''"
    "foldl apply_rule (js ''select x, '') (drop 2 conversions) = js ''select x, ''"
    "foldl apply_rule [] (drop 2 conversions) = []"
    "apply_rule (js ''select '') (conversions ! 2) = js ''select ''"
    "apply_rule [] (conversions ! 2) = []"
    by (simp_all add: conversions_def apply_rule_def apply_after_def js_def rx_defs class_defs)
  from keyword_case_asymmetry[OF k, of "js ''select top 10 [Id]''" "js ''select ''" "js '' Id''"
      "js ''[getdate()]''" "js ''select [x], getdate()''" "js ''select x, ''" "[]"
      "js ''select ''" "[]" "js ''select getdate()''"]
    h1 h2 h3 h4
  show ?thesis unfolding c by (simp add: js_def)
qed

text \<open>
  The claim as stated, for every input, fails: the bracket rule runs first, so in
  \<^verbatim>\<open>top 10[Id]\<close> the integer is followed by a word character when the keyword rule
  runs, and in \<^verbatim>\<open>[a]top 10\<close> the keyword follows one; the lowercase keyword with its
  integer is not converted.
\<close>

theorem bracket_after_integer_counterexample:
  "apply_conversions (js ''select top 10[Id] from t'') = js ''select top 10Id from t''
   \<and> apply_conversions (js ''[a]top 10'') = js ''atop 10''"
  by (simp add: eval_defs)


section \<open>Empty and blank sources\<close>

text \<open>
  Claim C5, as the code has it. No check for an empty source exists: a source that is empty
  or holds white space only, that can be read and whose destination can be written, is
  converted with success like any other; in buffered mode (up to 50 MiB) the output is the
  header followed by the source unchanged.
\<close>

theorem blank_source_converted:
  assumes "files fs inputFile = Some f" "readable f" "list_all is_space (content f)"
    and "writable fs outputFile"
  shows "succeeded (fst (convertAndSave now fs inputFile outputFile))
     \<and> (bytes f \<le> 50 * (1024 * 1024) \<longrightarrow>
          map_option content (files (snd (convertAndSave now fs inputFile outputFile)) outputFile)
            = Some (header now @ content f))"
proof (cases "bytes f \<le> 50 * (1024 * 1024)")
  case True
  have "convertFile now fs inputFile = Inr (header now @ content f)"
    using assms by (simp add: convertFile_def readFileSync_def convertToMySQL_def apply_conversions_blank)
  then have "convertAndSave now fs inputFile outputFile =
     (Inr \<lparr>success = True, message = Converted inputFile outputFile\<rparr>,
      store fs outputFile (header now @ content f))"
    using assms True by (simp add: convertAndSave_def statSync_def writeFileSync_def)
  then show ?thesis by (simp add: succeeded_def files_store)
next
  case False
  have "readFileSync fs inputFile = Inr (content f)"
    using assms by (simp add: readFileSync_def)
  then have "succeeded (fst (convertLargeFileStreaming now fs inputFile outputFile))"
    using assms(4) by (simp add: convertLargeFileStreaming_def Let_def succeeded_def)
  then show ?thesis using False assms(1) by (simp add: convertAndSave_def statSync_def)
qed

theorem blank_source_converted_witness:
  "succeeded (fst (convertAndSave (js ''T'') blank_fs ''spaces.sql'' ''spaces_mysql.sql''))
   \<and> map_option content (files (snd (convertAndSave (js ''T'') blank_fs ''spaces.sql'' ''spaces_mysql.sql'')) ''spaces_mysql.sql'')
        = Some (header (js ''T'') @ js ''  '' @ [NL])"
proof -
  let ?f = "\<lparr>content = js ''  '' @ [NL], readable = True, bytes = 3\<rparr>"
  have a: "files blank_fs ''spaces.sql'' = Some ?f" "readable ?f" "list_all is_space (content ?f)"
    "writable blank_fs ''spaces_mysql.sql''"
    by (simp_all add: blank_fs_def js_def is_space_def)
  from blank_source_converted[OF a, of "js ''T''"] show ?thesis by simp
qed

text \<open>
  The claim as stated fails: the conversion of an empty file and of a file of two spaces
  and a line feed returns \<^verbatim>\<open>success: true\<close>, not an error.
\<close>

theorem empty_source_counterexample:
  "fst (convertAndSave (js ''T'') blank_fs ''empty.sql'' ''empty_mysql.sql'') =
     Inr \<lparr>success = True, message = Converted ''empty.sql'' ''empty_mysql.sql''\<rparr>
   \<and> fst (convertAndSave (js ''T'') blank_fs ''spaces.sql'' ''spaces_mysql.sql'') =
     Inr \<lparr>success = True, message = Converted ''spaces.sql'' ''spaces_mysql.sql''\<rparr>"
  by (simp add: convertAndSave_def statSync_def blank_fs_def convertFile_def readFileSync_def writeFileSync_def)


section \<open>The provenance header\<close>

text \<open>
  Claim C6. Whatever the input, the text \<^verbatim>\<open>convertToMySQL\<close> returns and the text the
  streaming conversion writes begin with the same four lines: three comment lines (the
  conversion marker, the generation time, the caution notice) and an empty line. In
  streaming mode the header is the first chunk written, before any line of data. The time
  is the text of \<^verbatim>\<open>toISOString\<close>, which has no line feed.
\<close>

theorem provenance_header:
  assumes "NL \<notin> set now"
  shows "take 4 (split_nl (convertToMySQL now text)) =
       [js ''-- Converted from SQL Server to MySQL'', js ''-- Generated on: '' @ now,
        js ''-- Use with caution and verify before executing'', []]
     \<and> take 4 (split_nl (concat (written (stream_run now text)))) =
       [js ''-- Converted from SQL Server to MySQL'', js ''-- Generated on: '' @ now,
        js ''-- Use with caution and verify before executing'', []]
     \<and> take 1 (written (stream_run now text)) = [header now]
     \<and> list_all (prefix (js ''--''))
          [js ''-- Converted from SQL Server to MySQL'', js ''-- Generated on: '' @ now,
           js ''-- Use with caution and verify before executing'']"
proof (intro conjI)
  show "take 4 (split_nl (convertToMySQL now text)) =
       [js ''-- Converted from SQL Server to MySQL'', js ''-- Generated on: '' @ now,
        js ''-- Use with caution and verify before executing'', []]"
    by (simp add: convertToMySQL_def header_lines[OF assms])
  have w: "written (stream_run now text) =
     header now # map (\<lambda>l. fst (foldl line_step (l, False) conversions) @ [NL]) (rl_lines [] text)"
    by (simp add: stream_run_def written_foldl stream_start_def)
  show "take 4 (split_nl (concat (written (stream_run now text)))) =
       [js ''-- Converted from SQL Server to MySQL'', js ''-- Generated on: '' @ now,
        js ''-- Use with caution and verify before executing'', []]"
    by (simp add: w header_lines[OF assms])
  show "take 1 (written (stream_run now text)) = [header now]"
    by (simp add: w)
  show "list_all (prefix (js ''--''))
          [js ''-- Converted from SQL Server to MySQL'', js ''-- Generated on: '' @ now,
           js ''-- Use with caution and verify before executing'']"
    by (simp add: js_def)
qed

theorem provenance_header_witness:
  "take 4 (split_nl (convertToMySQL (js ''2024-01-15T10:30:00.000Z'') (js ''SELECT [Id]''))) =
       [js ''-- Converted from SQL Server to MySQL'', js ''-- Generated on: 2024-01-15T10:30:00.000Z'',
        js ''-- Use with caution and verify before executing'', []]
   \<and> take 4 (split_nl (concat (written (stream_run (js ''2024-01-15T10:30:00.000Z'') (js ''SELECT [Id]''))))) =
       [js ''-- Converted from SQL Server to MySQL'', js ''-- Generated on: 2024-01-15T10:30:00.000Z'',
        js ''-- Use with caution and verify before executing'', []]"
proof -
  have "NL \<notin> set (js ''2024-01-15T10:30:00.000Z'')" by (simp add: js_def)
  from provenance_header[OF this, of "js ''SELECT [Id]''"] show ?thesis
    by (simp add: js_def)
qed


section \<open>Statistics\<close>

text \<open>
  Claim C7. The entries of \<^verbatim>\<open>conversionsApplied\<close> are computed from the original text
  alone, each rule's pattern matched on it independently of the other rules and of the
  converted text. So a count can differ from what the conversion did: for
  \<^verbatim>\<open>[dbo].[Users]\<close> the statistics report one match of the schema rule and two of the
  bracket rule, while the bracket rule found nothing to replace in the text the schema rule
  had left.
\<close>

theorem stats_count_on_original:
  "conversionsApplied (getConversionStats originalContent convertedContent) =
     map (\<lambda>conv. \<lparr>entry_pattern = source conv,
                  count = length (all_matches (pattern conv) False originalContent)\<rparr>)
         (filter (\<lambda>conv. has_match (pattern conv) False originalContent) conversions)
   \<and> map count (conversionsApplied (getConversionStats (js ''[dbo].[Users]'')
          (convertToMySQL now (js ''[dbo].[Users]'')))) = [1, 2]
   \<and> all_matches (pattern (conversions ! 1)) False
        (apply_rule (js ''[dbo].[Users]'') (conversions ! 0)) = []"
proof (intro conjI)
  show g: "conversionsApplied (getConversionStats originalContent convertedContent) =
     map (\<lambda>conv. \<lparr>entry_pattern = source conv,
                  count = length (all_matches (pattern conv) False originalContent)\<rparr>)
         (filter (\<lambda>conv. has_match (pattern conv) False originalContent) conversions)"
    for originalContent convertedContent
    by (simp add: getConversionStats_def stats_foldl)
  show "map count (conversionsApplied (getConversionStats (js ''[dbo].[Users]'')
          (convertToMySQL now (js ''[dbo].[Users]'')))) = [1, 2]"
    unfolding g by (simp add: conversions_def js_def rx_defs class_defs)
  show "all_matches (pattern (conversions ! 1)) False
        (apply_rule (js ''[dbo].[Users]'') (conversions ! 0)) = []"
    by (simp add: conversions_def apply_rule_def js_def rx_defs class_defs)
qed


text \<open>
  Claim C10. \<^verbatim>\<open>conversionsApplied\<close> has one entry for each rule whose pattern matches in
  the original text, in the order of the table, and none for the other rules: every count
  is positive, and the length of the list is the number of rules that matched.
\<close>

theorem stats_entries_only_for_matches:
  "map entry_pattern (conversionsApplied (getConversionStats originalContent convertedContent)) =
     map source (filter (\<lambda>conv. has_match (pattern conv) False originalContent) conversions)
   \<and> list_all (\<lambda>e. 0 < count e) (conversionsApplied (getConversionStats originalContent convertedContent))
   \<and> length (conversionsApplied (getConversionStats originalContent convertedContent)) =
     length (filter (\<lambda>conv. has_match (pattern conv) False originalContent) conversions)"
  by (simp add: getConversionStats_def stats_foldl list_all_iff comp_def all_matches_Nil_iff)


section \<open>The summary of the streaming conversion\<close>

text \<open>
  Claim C8. A text is a list of lines, each with the terminator that ends it (LF, CR LF or
  a CR that no LF follows), and what follows the last terminator; every text is one
  (lemma \<open>join_lines_total\<close>). When the source holds such a text and can be read, and the
  destination can be written, the promise of \<^verbatim>\<open>convertLargeFileStreaming\<close> is resolved
  with \<^verbatim>\<open>success: true\<close> and a message that holds the number of the lines (the text after
  the last terminator counting as a line when it is not empty) and the number of those
  lines in which at least one rule matched (each rule on what the rules before left of the
  line).
\<close>

theorem stream_summary:
  assumes "readFileSync fs inputFile = Inr (join_lines lts rest)" "well_ended lts rest"
    and "writable fs outputFile"
  shows "fst (convertLargeFileStreaming now fs inputFile outputFile) =
     Inr \<lparr>success = True,
          message = ConvertedLines inputFile outputFile
            (length lts + (if rest = [] then 0 else 1))
            (length (filter (\<lambda>line. rule_matches line conversions) (lines_of lts rest)))\<rparr>"
proof -
  have "length (lines_of lts rest) = length lts + (if rest = [] then 0 else 1)"
    by (simp add: lines_of_def)
  then show ?thesis
    using assms(1,3) rl_lines_join[OF assms(2)]
    by (simp add: convertLargeFileStreaming_def Let_def stream_run_eq)
qed

theorem stream_summary_witness:
  "fst (convertLargeFileStreaming (js ''T'') stream_fs ''big.sql'' ''big_mysql.sql'') =
     Inr \<lparr>success = True, message = ConvertedLines ''big.sql'' ''big_mysql.sql'' 5 1\<rparr>"
proof -
  let ?lts = "[(js ''SELECT [Id]'', CRLF), (js ''FROM t'', LF), ([], LF), (js ''x'' @ 8232 # js ''y'', CR)]"
  have r: "readFileSync stream_fs ''big.sql'' = Inr (join_lines ?lts (js ''GO''))"
    by (simp add: readFileSync_def stream_fs_def)
  have w: "well_ended ?lts (js ''GO'')"
    by (simp add: js_def is_eol_def stops_def)
  have o: "writable stream_fs ''big_mysql.sql''"
    by (simp add: stream_fs_def)
  have m: "rule_matches (js ''SELECT [Id]'') conversions"
    "\<not> rule_matches (js ''FROM t'') conversions" "\<not> rule_matches [] conversions"
    "\<not> rule_matches (js ''x'' @ 8232 # js ''y'') conversions"
    "\<not> rule_matches (js ''GO'') conversions"
    by (simp_all add: conversions_def js_def rx_defs class_defs apply_rule_def)
  have g: "js ''GO'' \<noteq> []"
    by (simp add: js_def)
  have f: "length (filter (\<lambda>line. rule_matches line conversions) (lines_of ?lts (js ''GO''))) = 1"
    using m g by (simp add: lines_of_def)
  from stream_summary[OF r w o, of "js ''T''"] show ?thesis
    by (simp add: f g)
qed

section \<open>Partial failure of a batch\<close>

text \<open>
  Claim C9, as the code has it. The files of the list exist (they were listed from the
  directory), and the output path of each file that can be read can be written. Then the
  batch counts one success for each file that can be read and one error for each file that
  cannot, goes on after a failure, and leaves an output file for each file that can be read.
  With \<open>N\<close> readable files and one unreadable file the counts are \<open>N\<close> and 1.
\<close>

theorem batch_partial_failure:
  assumes "\<And>p. p \<in> set fileList \<Longrightarrow> files fs p \<noteq> None"
    and "\<And>p. p \<in> set fileList \<Longrightarrow> is_readable fs p \<Longrightarrow> writable fs (outputFile p)"
  shows "successCount (batch_loop clock outputFile fs fileList) = length (filter (is_readable fs) fileList)
     \<and> errorCount (batch_loop clock outputFile fs fileList) = length (filter (\<lambda>p. \<not> is_readable fs p) fileList)
     \<and> (\<forall>p \<in> set fileList. is_readable fs p \<longrightarrow>
           files (disk (batch_loop clock outputFile fs fileList)) (outputFile p) \<noteq> None)"
  using batch_invariant[of fs "\<lparr>successCount = 0, errorCount = 0, disk = fs\<rparr>" fileList outputFile clock]
    assms
  by (simp add: batch_loop_def keeps_refl)

theorem batch_partial_failure_witness:
  "successCount (batch_loop (\<lambda>p. js ''T'') output_name mixed_fs [''a.sql'', ''b.sql'', ''c.sql'']) = 2
   \<and> errorCount (batch_loop (\<lambda>p. js ''T'') output_name mixed_fs [''a.sql'', ''b.sql'', ''c.sql'']) = 1
   \<and> files (disk (batch_loop (\<lambda>p. js ''T'') output_name mixed_fs [''a.sql'', ''b.sql'', ''c.sql''])) ''a_mysql.sql'' \<noteq> None
   \<and> files (disk (batch_loop (\<lambda>p. js ''T'') output_name mixed_fs [''a.sql'', ''b.sql'', ''c.sql''])) ''b_mysql.sql'' \<noteq> None"
proof -
  have r: "is_readable mixed_fs ''a.sql''" "is_readable mixed_fs ''b.sql''" "\<not> is_readable mixed_fs ''c.sql''"
    by (simp_all add: is_readable_def mixed_fs_def)
  have e: "\<And>p. p \<in> set [''a.sql'', ''b.sql'', ''c.sql''] \<Longrightarrow> files mixed_fs p \<noteq> None"
    by (auto simp: mixed_fs_def)
  have w: "\<And>p. p \<in> set [''a.sql'', ''b.sql'', ''c.sql''] \<Longrightarrow> is_readable mixed_fs p \<Longrightarrow> writable mixed_fs (output_name p)"
    by (simp add: mixed_fs_def)
  from batch_partial_failure[of "[''a.sql'', ''b.sql'', ''c.sql'']" mixed_fs output_name "\<lambda>p. js ''T''", OF e w]
  show ?thesis using r by (simp add: output_names)
qed

text \<open>
  Without the condition on the output paths the claim fails. By default the outputs go to
  the directory of the inputs; when the unreadable file has the name of the output of a
  readable one and cannot be written either, the readable file fails as well: one readable
  file and one unreadable file give no success and two errors.
\<close>

theorem batch_locked_output_counterexample:
  "length (filter (is_readable locked_fs) [''a.sql'', ''a_mysql.sql'']) = 1
   \<and> length (filter (\<lambda>p. \<not> is_readable locked_fs p) [''a.sql'', ''a_mysql.sql'']) = 1
   \<and> successCount (batch_loop (\<lambda>p. js ''T'') output_name locked_fs [''a.sql'', ''a_mysql.sql'']) = 0
   \<and> errorCount (batch_loop (\<lambda>p. js ''T'') output_name locked_fs [''a.sql'', ''a_mysql.sql'']) = 2"
  by (simp add: batch_loop_def batch_step_def convertAndSave_def statSync_def convertFile_def
      readFileSync_def writeFileSync_def locked_fs_def is_readable_def output_names failure_def)


end
